theory Spec2Isabelle
  imports Complex_Main "HOL-Library.Monad_Syntax" "HOL-Library.AList"
begin

section \<open>Python strings, characters and conversions\<close>

text \<open>
  The converter \<^verbatim>\<open>convert_godot_data.py\<close> works on Python \<^verbatim>\<open>str\<close> values. A
  \<^typ>\<open>char\<close> stands for one code point below 256 and a \<^typ>\<open>string\<close> for a Python
  string of such code points. The character classes below are Python's own on that
  range: \<^verbatim>\<open>str.isspace\<close> (used by \<^verbatim>\<open>str.strip()\<close> and by \<^verbatim>\<open>\s\<close>), the decimal digits
  (\<^verbatim>\<open>\d\<close>) and the word characters (\<^verbatim>\<open>\w\<close>: \<^verbatim>\<open>str.isalnum\<close> or an underscore).
\<close>

abbreviation dquote :: char where "dquote \<equiv> CHR 0x22"
abbreviation backslash :: char where "backslash \<equiv> CHR 0x5C"
abbreviation newline :: char where "newline \<equiv> CHR 0x0A"

definition is_space :: "char \<Rightarrow> bool" where
  "is_space c = (let n = (of_char c :: nat) in
     (9 \<le> n \<and> n \<le> 13) \<or> (28 \<le> n \<and> n \<le> 32) \<or> n = 133 \<or> n = 160)"

definition is_digit :: "char \<Rightarrow> bool" where
  "is_digit c = (let n = (of_char c :: nat) in 48 \<le> n \<and> n \<le> 57)"

definition is_word :: "char \<Rightarrow> bool" where
  "is_word c = (let n = (of_char c :: nat) in
     (48 \<le> n \<and> n \<le> 57) \<or> (65 \<le> n \<and> n \<le> 90) \<or> n = 95 \<or> (97 \<le> n \<and> n \<le> 122)
     \<or> n = 170 \<or> n = 178 \<or> n = 179 \<or> n = 181 \<or> n = 185 \<or> n = 186
     \<or> (188 \<le> n \<and> n \<le> 190) \<or> (192 \<le> n \<and> n \<le> 214) \<or> (216 \<le> n \<and> n \<le> 246)
     \<or> 248 \<le> n)"

text \<open>\<^verbatim>\<open>s.strip()\<close>: leading and trailing whitespace removed.\<close>

definition lstrip :: "string \<Rightarrow> string" where
  "lstrip s = dropWhile is_space s"

definition rstrip :: "string \<Rightarrow> string" where
  "rstrip s = rev (dropWhile is_space (rev s))"

definition strip :: "string \<Rightarrow> string" where
  "strip s = rstrip (lstrip s)"

text \<open>\<^verbatim>\<open>s.strip('"')\<close>: every leading and every trailing double quote removed.\<close>

definition strip_quotes :: "string \<Rightarrow> string" where
  "strip_quotes s =
     rev (dropWhile (\<lambda>c. c = dquote) (rev (dropWhile (\<lambda>c. c = dquote) s)))"

text \<open>\<^verbatim>\<open>s.startswith(p)\<close>, \<^verbatim>\<open>s.endswith(p)\<close> and the slice \<^verbatim>\<open>s[1:-1]\<close>, which is empty
  for a string of fewer than two characters.\<close>

definition startswith :: "string \<Rightarrow> string \<Rightarrow> bool" where
  "startswith s p = (take (length p) s = p)"

definition endswith :: "string \<Rightarrow> string \<Rightarrow> bool" where
  "endswith s p = (length p \<le> length s \<and> drop (length s - length p) s = p)"

definition slice_1_m1 :: "string \<Rightarrow> string" where
  "slice_1_m1 s = butlast (tl s)"

text \<open>
  \<^verbatim>\<open>s.replace(old, new)\<close> replaces the non-overlapping occurrences of \<^verbatim>\<open>old\<close> from left
  to right in one pass; with an empty \<^verbatim>\<open>old\<close> Python puts \<^verbatim>\<open>new\<close> before every character
  and at the end.
\<close>

function replace_scan :: "string \<Rightarrow> string \<Rightarrow> string \<Rightarrow> string" where
  "replace_scan old new s =
     (if s = [] \<or> old = [] then s
      else if take (length old) s = old then new @ replace_scan old new (drop (length old) s)
      else hd s # replace_scan old new (tl s))"
  by pat_completeness auto
termination
  by (relation "measure (\<lambda>(old, new, s). length s)") auto

declare replace_scan.simps [simp del]

definition str_replace :: "string \<Rightarrow> string \<Rightarrow> string \<Rightarrow> string" where
  "str_replace s old new =
     (if old = [] then new @ concat (map (\<lambda>c. c # new) s) else replace_scan old new s)"

text \<open>
  The only exception the parser can raise is the \<^verbatim>\<open>ValueError\<close> of \<^verbatim>\<open>float()\<close> on text
  that is not a number. Results are \<open>error + 'a\<close>, with \<open>Inl\<close> for the raise.
\<close>

datatype error = ValueError

definition digits_val :: "string \<Rightarrow> nat" where
  "digits_val ds = foldl (\<lambda>n c. 10 * n + (of_char c - 48)) 0 ds"

text \<open>
  \<^verbatim>\<open>int(s)\<close> and \<^verbatim>\<open>float(s)\<close> on the texts the parser passes to them, which hold only
  digits, \<^verbatim>\<open>.\<close>, \<^verbatim>\<open>-\<close> and surrounding whitespace: both strip whitespace and read an
  optional sign; \<^verbatim>\<open>int\<close> then wants one or more digits, \<^verbatim>\<open>float\<close> wants digits with at
  most one decimal point and a digit on at least one side of it. Underscores, exponents,
  \<^verbatim>\<open>inf\<close> and \<^verbatim>\<open>nan\<close> cannot reach these calls and are not modelled. A Python \<^verbatim>\<open>float\<close> is
  the double nearest to the decimal read; \<open>py_float\<close> returns that decimal itself as a
  rational, so that the model's float stands for the double nearest to it. Integers are
  unbounded, as Python's are; the interpreter's configurable limit on the length of
  a decimal integer text, like its recursion limit, is a resource limit left out.
\<close>

definition unsigned :: "string \<Rightarrow> bool \<times> string" where
  "unsigned s = (case s of
       c # r \<Rightarrow> if c = CHR ''-'' then (True, r) else if c = CHR ''+'' then (False, r)
                else (False, s)
     | [] \<Rightarrow> (False, s))"

definition py_int :: "string \<Rightarrow> error + int" where
  "py_int s = (let (neg, ds) = unsigned (strip s) in
     if ds \<noteq> [] \<and> list_all is_digit ds
     then Inr (if neg then - int (digits_val ds) else int (digits_val ds))
     else Inl ValueError)"

definition py_float :: "string \<Rightarrow> error + rat" where
  "py_float s = (let (neg, t) = unsigned (strip s);
        d1 = takeWhile is_digit t; r1 = dropWhile is_digit t;
        has_dot = (r1 \<noteq> [] \<and> hd r1 = CHR ''.'');
        r2 = (if has_dot then tl r1 else r1);
        d2 = (if has_dot then takeWhile is_digit r2 else []);
        r3 = (if has_dot then dropWhile is_digit r2 else r2);
        v = of_nat (digits_val (d1 @ d2)) / of_nat (10 ^ length d2)
     in if r3 = [] \<and> d1 @ d2 \<noteq> [] then Inr (if neg then - v else v)
        else Inl ValueError)"

section \<open>Path rewriting\<close>

text \<open>
  \<^verbatim>\<open>convert_path\<close>: an empty path gives the empty string; otherwise every occurrence of
  \<^verbatim>\<open>res://\<close> is replaced by nothing and then every backslash by a forward slash.
\<close>

definition convert_path :: "string \<Rightarrow> string" where
  "convert_path godot_path =
     (if godot_path = [] then []
      else let path = str_replace godot_path ''res://'' '''';
               path = str_replace path [backslash] ''/''
           in path)"

section \<open>Values\<close>

text \<open>
  The Python objects the parser returns: \<^verbatim>\<open>None\<close>, \<^verbatim>\<open>bool\<close>, \<^verbatim>\<open>int\<close>, \<^verbatim>\<open>float\<close>, \<^verbatim>\<open>str\<close>,
  \<^verbatim>\<open>list\<close> and \<^verbatim>\<open>dict\<close>. A \<^verbatim>\<open>dict\<close> keeps its keys in insertion order, and storing under
  a key that is already present replaces the value where the key stands: an association
  list with \<^const>\<open>AList.update\<close>. A colour is returned as the \<^verbatim>\<open>dict\<close> with the keys
  \<^verbatim>\<open>r\<close>, \<^verbatim>\<open>g\<close>, \<^verbatim>\<open>b\<close>, \<^verbatim>\<open>a\<close> and a vector as the \<^verbatim>\<open>dict\<close> with the keys \<^verbatim>\<open>x\<close>, \<^verbatim>\<open>y\<close>.
\<close>

datatype pyval =
    PyNone
  | PyBool bool
  | PyInt int
  | PyFloat rat
  | PyStr string
  | PyList "pyval list"
  | PyDict "(string \<times> pyval) list"

definition Color :: "rat \<Rightarrow> rat \<Rightarrow> rat \<Rightarrow> rat \<Rightarrow> pyval" where
  "Color r g b a =
     PyDict [(''r'', PyFloat r), (''g'', PyFloat g), (''b'', PyFloat b), (''a'', PyFloat a)]"

definition Vector2 :: "rat \<Rightarrow> rat \<Rightarrow> pyval" where
  "Vector2 x y = PyDict [(''x'', PyFloat x), (''y'', PyFloat y)]"

section \<open>The patterns of the value classifier\<close>

text \<open>
  \<^verbatim>\<open>re.match\<close> anchors a pattern at the start of the text only. In the two literal
  patterns the pieces that follow one another (\<^verbatim>\<open>\s*\<close>, the component class, the comma,
  the closing parenthesis) accept disjoint sets of characters, so the greedy match is the
  only one and no backtracking can find another: each piece takes the longest run of
  its characters.
\<close>

definition lit :: "string \<Rightarrow> string \<Rightarrow> string option" where
  "lit p s = (if take (length p) s = p then Some (drop (length p) s) else None)"

definition many1 :: "(char \<Rightarrow> bool) \<Rightarrow> string \<Rightarrow> (string \<times> string) option" where
  "many1 P s = (if takeWhile P s = [] then None else Some (takeWhile P s, dropWhile P s))"

definition color_class :: "char \<Rightarrow> bool" where
  "color_class c = (is_digit c \<or> c = CHR ''.'')"

definition vec2_class :: "char \<Rightarrow> bool" where
  "vec2_class c = (is_digit c \<or> c = CHR ''.'' \<or> c = CHR ''-'')"

text \<open>\<^verbatim>\<open>Color\(\s*([\d.]+)\s*,\s*([\d.]+)\s*,\s*([\d.]+)\s*,\s*([\d.]+)\s*\)\<close>: the four
  groups of the match, or \<open>None\<close>.\<close>

definition color_match :: "string \<Rightarrow> (string \<times> string \<times> string \<times> string) option" where
  "color_match s = do {
     t \<leftarrow> lit ''Color('' s;
     (g1, t) \<leftarrow> many1 color_class (lstrip t);
     t \<leftarrow> lit '','' (lstrip t);
     (g2, t) \<leftarrow> many1 color_class (lstrip t);
     t \<leftarrow> lit '','' (lstrip t);
     (g3, t) \<leftarrow> many1 color_class (lstrip t);
     t \<leftarrow> lit '','' (lstrip t);
     (g4, t) \<leftarrow> many1 color_class (lstrip t);
     t \<leftarrow> lit '')'' (lstrip t);
     Some (g1, g2, g3, g4)
   }"

text \<open>\<^verbatim>\<open>Vector2\(\s*([\d.-]+)\s*,\s*([\d.-]+)\s*\)\<close>: the two groups of the match.\<close>

definition vec2_match :: "string \<Rightarrow> (string \<times> string) option" where
  "vec2_match s = do {
     t \<leftarrow> lit ''Vector2('' s;
     (g1, t) \<leftarrow> many1 vec2_class (lstrip t);
     t \<leftarrow> lit '','' (lstrip t);
     (g2, t) \<leftarrow> many1 vec2_class (lstrip t);
     t \<leftarrow> lit '')'' (lstrip t);
     Some (g1, g2)
   }"

text \<open>\<^verbatim>\<open>$\<close> matches at the end of the text and before a newline that ends the text.\<close>

definition at_dollar :: "string \<Rightarrow> bool" where
  "at_dollar t = (t = [] \<or> t = [newline])"

definition opt_minus :: "string \<Rightarrow> string" where
  "opt_minus s = (if s \<noteq> [] \<and> hd s = CHR ''-'' then tl s else s)"

text \<open>\<^verbatim>\<open>^-?\d+$\<close> and \<^verbatim>\<open>^-?\d+\.\d*$\<close>.\<close>

definition int_match :: "string \<Rightarrow> bool" where
  "int_match s = (let t = opt_minus s in
     takeWhile is_digit t \<noteq> [] \<and> at_dollar (dropWhile is_digit t))"

definition float_match :: "string \<Rightarrow> bool" where
  "float_match s = (let t = opt_minus s; r = dropWhile is_digit t in
     takeWhile is_digit t \<noteq> [] \<and> r \<noteq> [] \<and> hd r = CHR ''.''
     \<and> at_dollar (dropWhile is_digit (tl r)))"

section \<open>The value classifier and the composite parsers\<close>

text \<open>
  \<^verbatim>\<open>parse_value\<close>, \<^verbatim>\<open>parse_array\<close> and \<^verbatim>\<open>parse_dict\<close> call one another. The \<^verbatim>\<open>for\<close>
  loop of \<^verbatim>\<open>parse_array\<close> is \<open>array_loop\<close>, on the characters still to read, with the
  loop's variables \<^verbatim>\<open>depth\<close>, \<^verbatim>\<open>current\<close>, \<^verbatim>\<open>in_string\<close> and \<^verbatim>\<open>items\<close>; its last equation is
  the statement after the loop. The \<^verbatim>\<open>while\<close> loop of \<^verbatim>\<open>parse_dict\<close> is \<open>dict_loop\<close>, on
  \<^verbatim>\<open>content\<close> and the index \<^verbatim>\<open>i\<close>, with \<^verbatim>\<open>depth\<close>, \<^verbatim>\<open>current_key\<close> (\<open>None\<close> for Python's
  \<^verbatim>\<open>None\<close>), \<^verbatim>\<open>current_val\<close>, \<^verbatim>\<open>in_string\<close>, \<^verbatim>\<open>parsing_key\<close> and \<^verbatim>\<open>result\<close>. The bare
  \<^verbatim>\<open>except\<close> of the two composite parsers turns a raise inside them into the empty
  list or the empty dictionary.
\<close>

function parse_value :: "string \<Rightarrow> error + pyval"
  and parse_array :: "string \<Rightarrow> error + pyval"
  and array_loop :: "string \<Rightarrow> int \<Rightarrow> string \<Rightarrow> bool \<Rightarrow> pyval list \<Rightarrow> error + pyval list"
  and parse_dict :: "string \<Rightarrow> error + pyval"
  and dict_loop :: "string \<Rightarrow> nat \<Rightarrow> int \<Rightarrow> string option \<Rightarrow> string \<Rightarrow> bool \<Rightarrow> bool
         \<Rightarrow> (string \<times> pyval) list \<Rightarrow> error + (string \<times> pyval) list"
where
  "parse_value raw =
     (let value_str = strip raw in
      if value_str = ''true'' then Inr (PyBool True)
      else if value_str = ''false'' then Inr (PyBool False)
      else if value_str = ''null'' \<or> value_str = ''nil'' then Inr PyNone
      else case color_match value_str of
        Some (g1, g2, g3, g4) \<Rightarrow>
          (case (py_float g1, py_float g2, py_float g3, py_float g4) of
             (Inr r, Inr g, Inr b, Inr a) \<Rightarrow> Inr (Color r g b a)
           | _ \<Rightarrow> Inl ValueError)
      | None \<Rightarrow>
      (case vec2_match value_str of
        Some (g1, g2) \<Rightarrow>
          (case (py_float g1, py_float g2) of
             (Inr x, Inr y) \<Rightarrow> Inr (Vector2 x y)
           | _ \<Rightarrow> Inl ValueError)
      | None \<Rightarrow>
      if startswith value_str [dquote] \<and> endswith value_str [dquote]
        then Inr (PyStr (slice_1_m1 value_str))
      else if startswith value_str ''['' then parse_array value_str
      else if startswith value_str ''{'' then parse_dict value_str
      else if int_match value_str then map_sum id PyInt (py_int value_str)
      else if float_match value_str then map_sum id PyFloat (py_float value_str)
      else Inr (PyStr value_str)))"
| "parse_array value_str =
     (let content = strip (slice_1_m1 value_str) in
      if content = [] then Inr (PyList [])
      else case array_loop content 0 [] False [] of
             Inr items \<Rightarrow> Inr (PyList items)
           | Inl e \<Rightarrow> Inr (PyList []))"
| "array_loop [] depth current in_string items =
     (if strip current \<noteq> []
      then case parse_value (strip current) of
             Inr v \<Rightarrow> Inr (items @ [v])
           | Inl e \<Rightarrow> Inl e
      else Inr items)"
| "array_loop (char # rest) depth current in_string items =
     (let in_string = (if char = dquote \<and> (current = [] \<or> last current \<noteq> backslash)
                       then \<not> in_string else in_string) in
      if \<not> in_string then
        if char = CHR ''['' \<or> char = CHR ''{''
          then array_loop rest (depth + 1) (current @ [char]) in_string items
        else if char = CHR '']'' \<or> char = CHR ''}''
          then array_loop rest (depth - 1) (current @ [char]) in_string items
        else if char = CHR '','' \<and> depth = 0
          then case parse_value (strip current) of
                 Inr v \<Rightarrow> array_loop rest depth [] in_string (items @ [v])
               | Inl e \<Rightarrow> Inl e
        else array_loop rest depth (current @ [char]) in_string items
      else array_loop rest depth (current @ [char]) in_string items)"
| "parse_dict value_str =
     (let content = strip (slice_1_m1 value_str) in
      if content = [] then Inr (PyDict [])
      else case dict_loop content 0 0 None [] False True [] of
             Inr result \<Rightarrow> Inr (PyDict result)
           | Inl e \<Rightarrow> Inr (PyDict []))"
| "dict_loop content i depth current_key current_val in_string parsing_key result =
     (if i < length content then
        let char = content ! i;
            in_string = (if char = dquote \<and> (i = 0 \<or> content ! (i - 1) \<noteq> backslash)
                         then \<not> in_string else in_string) in
        if \<not> in_string then
          if char = CHR ''['' \<or> char = CHR ''{''
            then dict_loop content (i + 1) (depth + 1) current_key (current_val @ [char])
                   in_string parsing_key result
          else if char = CHR '']'' \<or> char = CHR ''}''
            then dict_loop content (i + 1) (depth - 1) current_key (current_val @ [char])
                   in_string parsing_key result
          else if char = CHR '':'' \<and> depth = 0 \<and> parsing_key
            then dict_loop content (i + 1) depth (Some (strip_quotes (strip current_val))) []
                   in_string False result
          else if char = CHR '','' \<and> depth = 0
            then (case current_key of
                    Some k \<Rightarrow>
                      (case parse_value (strip current_val) of
                         Inr v \<Rightarrow> dict_loop content (i + 1) depth None [] in_string True
                                    (AList.update k v result)
                       | Inl e \<Rightarrow> Inl e)
                  | None \<Rightarrow> dict_loop content (i + 1) depth None [] in_string True result)
          else dict_loop content (i + 1) depth current_key (current_val @ [char])
                 in_string parsing_key result
        else dict_loop content (i + 1) depth current_key (current_val @ [char])
               in_string parsing_key result
      else
        (case current_key of
           Some k \<Rightarrow>
             if strip current_val \<noteq> []
             then (case parse_value (strip current_val) of
                     Inr v \<Rightarrow> Inr (AList.update k v result)
                   | Inl e \<Rightarrow> Inl e)
             else Inr result
         | None \<Rightarrow> Inr result))"
  by pat_completeness auto

lemma length_strip_le: "length (strip s) \<le> length s"
  unfolding strip_def rstrip_def lstrip_def
  by (metis length_dropWhile_le length_rev le_trans)

lemma length_content_lt:
  "strip (slice_1_m1 v) \<noteq> [] \<Longrightarrow> length (strip (slice_1_m1 v)) + 2 \<le> length v"
proof -
  assume a: "strip (slice_1_m1 v) \<noteq> []"
  have "slice_1_m1 v \<noteq> []" using a by (auto simp: strip_def rstrip_def lstrip_def)
  then have "2 \<le> length v" unfolding slice_1_m1_def by (cases v; cases "tl v") auto
  moreover have "length (slice_1_m1 v) = length v - 2" unfolding slice_1_m1_def by simp
  ultimately show ?thesis using length_strip_le[of "slice_1_m1 v"] by arith
qed

termination parse_value
  apply (relation "measures [
     (\<lambda>x. case x of
        Inl (Inl raw) \<Rightarrow> 4 * length raw + 3
      | Inl (Inr s) \<Rightarrow> 4 * length s + 2
      | Inr (Inl (rest, depth, current, in_string, items)) \<Rightarrow> 4 * (length rest + length current) + 4
      | Inr (Inr (Inl s)) \<Rightarrow> 4 * length s + 2
      | Inr (Inr (Inr (content, i, depth, ck, cv, ins, pk, res))) \<Rightarrow> 4 * (length content - i + length cv) + 4),
     (\<lambda>x. case x of
        Inr (Inl (rest, depth, current, in_string, items)) \<Rightarrow> length rest
      | Inr (Inr (Inr (content, i, depth, ck, cv, ins, pk, res))) \<Rightarrow> length content - i
      | _ \<Rightarrow> 0)]")
  apply (simp_all add: le_imp_less_Suc length_strip_le)
  subgoal for v using length_content_lt[of v] by arith
  subgoal for char rest current using length_strip_le[of current] by arith
  subgoal for v using length_content_lt[of v] by arith
  subgoal by arith
  subgoal by arith
  subgoal by arith
  subgoal by arith
  subgoal for content i depth ck current_val using length_strip_le[of current_val] by arith
  subgoal by arith
  subgoal by arith
  subgoal by arith
  done

declare parse_value.simps [simp del] parse_array.simps [simp del] parse_dict.simps [simp del]
  array_loop.simps [simp del] dict_loop.simps [simp del]

section \<open>Reading a resource file\<close>

text \<open>
  \<^verbatim>\<open>re.search(r'\[resource\](.*)', content, re.DOTALL)\<close> finds the first place where the
  marker occurs; its group is all the text after the marker.
\<close>

fun find_after :: "string \<Rightarrow> string \<Rightarrow> string option" where
  "find_after p [] = (if p = [] then Some [] else None)"
| "find_after p (c # cs) =
     (if take (length p) (c # cs) = p then Some (drop (length p) (c # cs))
      else find_after p cs)"

text \<open>\<^verbatim>\<open>s.split('\n')\<close>: the pieces between the newlines, one more than there are newlines.\<close>

fun split_on :: "char \<Rightarrow> string \<Rightarrow> string list" where
  "split_on d [] = [[]]"
| "split_on d (c # cs) =
     (if c = d then [] # split_on d cs
      else case split_on d cs of l # ls \<Rightarrow> (c # l) # ls | [] \<Rightarrow> [[c]])"

text \<open>
  \<^verbatim>\<open>^(\w+)\s*=\s*(.+)$\<close>. Up to the equals sign the greedy match is the only one. After
  it \<^verbatim>\<open>\s*\<close> takes the longest run of whitespace that leaves \<^verbatim>\<open>(.+)$\<close> something to match,
  and \<^verbatim>\<open>(.+)$\<close> takes the characters up to the first newline, when that run is not empty
  and ends the text or stands before a newline that ends it.
\<close>

definition dot_plus_dollar :: "string \<Rightarrow> string option" where
  "dot_plus_dollar t =
     (let run = takeWhile (\<lambda>c. c \<noteq> newline) t; rest = dropWhile (\<lambda>c. c \<noteq> newline) t
      in if run \<noteq> [] \<and> at_dollar rest then Some run else None)"

fun ws_value :: "string \<Rightarrow> string option" where
  "ws_value [] = None"
| "ws_value (c # t) =
     (if is_space c
      then case ws_value t of Some g \<Rightarrow> Some g | None \<Rightarrow> dot_plus_dollar (c # t)
      else dot_plus_dollar (c # t))"

definition assign_match :: "string \<Rightarrow> (string \<times> string) option" where
  "assign_match line = do {
     (key, t) \<leftarrow> many1 is_word line;
     t \<leftarrow> lit ''='' (lstrip t);
     g2 \<leftarrow> ws_value t;
     Some (key, g2)
   }"

text \<open>
  \<^verbatim>\<open>parse_tres_file\<close>, on the text read from the file. \<open>tres_lines\<close> is its loop over
  the lines, with the dictionary \<^verbatim>\<open>data\<close>; \<open>Inr None\<close> is the \<^verbatim>\<open>None\<close> returned when there
  is no resource section. A \<^verbatim>\<open>ValueError\<close> raised by \<^verbatim>\<open>parse_value\<close> is not caught here.
\<close>

fun tres_lines :: "string list \<Rightarrow> (string \<times> pyval) list \<Rightarrow> error + (string \<times> pyval) list" where
  "tres_lines [] data = Inr data"
| "tres_lines (l # ls) data =
     (let line = strip l in
      if line = [] \<or> startswith line ''#'' \<or> startswith line ''script''
        then tres_lines ls data
      else case assign_match line of
             Some (key, g2) \<Rightarrow>
               (case parse_value (strip g2) of
                  Inr v \<Rightarrow> tres_lines ls (AList.update key v data)
                | Inl e \<Rightarrow> Inl e)
           | None \<Rightarrow> tres_lines ls data)"

definition parse_tres_file :: "string \<Rightarrow> error + (string \<times> pyval) list option" where
  "parse_tres_file content =
     (case find_after ''[resource]'' content of
        None \<Rightarrow> Inr None
      | Some resource_content \<Rightarrow>
          map_sum id Some (tres_lines (split_on newline (strip resource_content)) []))"

section \<open>The composite parsers as the specification describes them\<close>

text \<open>
  The specification describes the array parser in two steps: a scan that cuts the text
  between the brackets into fragments, and the classification of each fragment. The
  scan keeps a nesting depth, raised by \<^verbatim>\<open>[\<close> and \<^verbatim>\<open>{\<close> and lowered by \<^verbatim>\<open>]\<close> and \<^verbatim>\<open>}\<close> outside
  quoted strings, and a flag for being inside a quoted string, toggled by a double
  quote that does not follow a backslash in the fragment read so far. A comma at depth
  0 outside a string ends the fragment. \<open>top_split\<close> is that scan from any state of it;
  a last fragment that is blank is dropped.
\<close>

definition step_depth :: "bool \<Rightarrow> char \<Rightarrow> int \<Rightarrow> int" where
  "step_depth in_string c depth =
     (if in_string then depth
      else if c = CHR ''['' \<or> c = CHR ''{'' then depth + 1
      else if c = CHR '']'' \<or> c = CHR ''}'' then depth - 1
      else depth)"

definition quote_step :: "string \<Rightarrow> char \<Rightarrow> bool \<Rightarrow> bool" where
  "quote_step fragment c in_string =
     (if c = dquote \<and> (fragment = [] \<or> last fragment \<noteq> backslash)
      then \<not> in_string else in_string)"

fun top_split :: "string \<Rightarrow> int \<Rightarrow> string \<Rightarrow> bool \<Rightarrow> string list" where
  "top_split [] depth fragment in_string = [fragment]"
| "top_split (c # cs) depth fragment in_string =
     (let in_string = quote_step fragment c in_string in
      if \<not> in_string \<and> c = CHR '','' \<and> depth = 0
        then fragment # top_split cs depth [] in_string
      else top_split cs (step_depth in_string c depth) (fragment @ [c]) in_string)"

definition drop_blank_last :: "string list \<Rightarrow> string list" where
  "drop_blank_last fs = (if fs \<noteq> [] \<and> strip (last fs) = [] then butlast fs else fs)"

definition array_fragments :: "string \<Rightarrow> string list" where
  "array_fragments content = drop_blank_last (top_split content 0 [] False)"

fun classify_all :: "string list \<Rightarrow> error + pyval list" where
  "classify_all [] = Inr []"
| "classify_all (f # fs) =
     (case parse_value (strip f) of
        Inl e \<Rightarrow> Inl e
      | Inr v \<Rightarrow> (case classify_all fs of Inl e \<Rightarrow> Inl e | Inr vs \<Rightarrow> Inr (v # vs)))"

text \<open>
  The map parser is described as the same scan with a key mode and a value mode:
  in key mode (no key yet) a colon at depth 0 outside a string makes the text read so
  far the key; a comma at depth 0 outside a string commits the pending key with the
  value text read since and returns to key mode; at the end a pending key with a value
  text that is not blank is committed. Here a double quote toggles the string flag
  unless the character before it in the whole text is a backslash. \<open>dict_pairs\<close> is
  that scan, giving the keys with their value texts in the order of the commits, and
  \<open>store_all\<close> classifies the value texts and stores them under their keys.
\<close>

definition prev_char :: "string \<Rightarrow> nat \<Rightarrow> char option" where
  "prev_char content i = (if i = 0 then None else Some (content ! (i - 1)))"

definition quote_step_after :: "char option \<Rightarrow> char \<Rightarrow> bool \<Rightarrow> bool" where
  "quote_step_after prev c in_string =
     (if c = dquote \<and> prev \<noteq> Some backslash then \<not> in_string else in_string)"

fun dict_pairs :: "string \<Rightarrow> char option \<Rightarrow> int \<Rightarrow> string option \<Rightarrow> string \<Rightarrow> bool
    \<Rightarrow> (string \<times> string) list" where
  "dict_pairs [] prev depth key text in_string =
     (case key of
        Some k \<Rightarrow> if strip text \<noteq> [] then [(k, text)] else []
      | None \<Rightarrow> [])"
| "dict_pairs (c # cs) prev depth key text in_string =
     (let in_string = quote_step_after prev c in_string in
      if \<not> in_string \<and> c = CHR '':'' \<and> depth = 0 \<and> key = None
        then dict_pairs cs (Some c) depth (Some (strip_quotes (strip text))) [] in_string
      else if \<not> in_string \<and> c = CHR '','' \<and> depth = 0
        then (case key of Some k \<Rightarrow> [(k, text)] | None \<Rightarrow> [])
             @ dict_pairs cs (Some c) depth None [] in_string
      else dict_pairs cs (Some c) (step_depth in_string c depth) key (text @ [c]) in_string)"

fun store_all :: "(string \<times> string) list \<Rightarrow> (string \<times> pyval) list
    \<Rightarrow> error + (string \<times> pyval) list" where
  "store_all [] result = Inr result"
| "store_all ((k, text) # ps) result =
     (case parse_value (strip text) of
        Inl e \<Rightarrow> Inl e
      | Inr v \<Rightarrow> store_all ps (AList.update k v result))"

text \<open>
  The head of a fragment is its text before the first double quote or bracket. A
  fragment the scans cut out has no comma in its head: such a comma stands at depth 0
  outside a string and would have ended the fragment.
\<close>

definition plain :: "char \<Rightarrow> bool" where
  "plain c = (c \<noteq> dquote \<and> c \<noteq> CHR ''['' \<and> c \<noteq> CHR ''{'' \<and> c \<noteq> CHR '']'' \<and> c \<noteq> CHR ''}'')"

definition comma_free_head :: "string \<Rightarrow> bool" where
  "comma_free_head f = (CHR '','' \<notin> set (takeWhile plain f))"

text \<open>The reading of the map key that takes off one pair of surrounding double quotes.\<close>

definition unquote_pair :: "string \<Rightarrow> string" where
  "unquote_pair k =
     (if 2 \<le> length k \<and> hd k = dquote \<and> last k = dquote then butlast (tl k) else k)"

text \<open>
  The assignments of a section, as the specification's assignment splitter gives them:
  for every line that survives the filter and matches the pattern, the key and the
  trimmed value text, in the order of the lines. \<open>first_seen\<close> is the order in which
  distinct keys first occur.
\<close>

definition line_assignment :: "string \<Rightarrow> (string \<times> string) option" where
  "line_assignment l =
     (let line = strip l in
      if line = [] \<or> startswith line ''#'' \<or> startswith line ''script'' then None
      else map_option (\<lambda>(key, g2). (key, strip g2)) (assign_match line))"

definition assignments :: "string list \<Rightarrow> (string \<times> string) list" where
  "assignments ls = List.map_filter line_assignment ls"

fun first_seen :: "'a list \<Rightarrow> 'a list" where
  "first_seen [] = []"
| "first_seen (x # xs) = x # removeAll x (first_seen xs)"

text \<open>The text contains the marker \<open>p\<close>; and \<open>pre\<close> is the text before its first
  occurrence.\<close>

definition occurs_in :: "string \<Rightarrow> string \<Rightarrow> bool" where
  "occurs_in p s = (\<exists>pre post. s = pre @ p @ post)"

definition first_at :: "string \<Rightarrow> string \<Rightarrow> string \<Rightarrow> string \<Rightarrow> bool" where
  "first_at p s pre post =
     (s = pre @ p @ post \<and> (\<forall>pre' post'. s = pre' @ p @ post' \<longrightarrow> length pre \<le> length pre'))"

section \<open>Properties of the value classifier\<close>

lemma strip_id:
  assumes "s \<noteq> []" "\<not> is_space (hd s)" "\<not> is_space (last s)"
  shows "strip s = s"
proof -
  have 1: "lstrip s = s" using assms(1,2) unfolding lstrip_def by (cases s) auto
  have "rev s \<noteq> []" "\<not> is_space (hd (rev s))" using assms(1,3) by (auto simp: hd_rev)
  then have "dropWhile is_space (rev s) = rev s" by (cases "rev s") auto
  then show ?thesis unfolding strip_def rstrip_def 1 by simp
qed

lemma color_match_hd: "s = [] \<or> hd s \<noteq> CHR ''C'' \<Longrightarrow> color_match s = None"
  unfolding color_match_def lit_def by (cases s) auto

lemma vec2_match_hd: "s = [] \<or> hd s \<noteq> CHR ''V'' \<Longrightarrow> vec2_match s = None"
  unfolding vec2_match_def lit_def by (cases s) auto

lemma is_digit_not_space: "is_digit c \<Longrightarrow> \<not> is_space c"
  unfolding is_digit_def is_space_def Let_def by arith

lemma is_digit_chars:
  "is_digit c \<Longrightarrow> c \<noteq> CHR ''C'' \<and> c \<noteq> CHR ''V'' \<and> c \<noteq> dquote \<and> c \<noteq> CHR ''['' \<and> c \<noteq> CHR ''{''
     \<and> c \<noteq> CHR ''t'' \<and> c \<noteq> CHR ''f'' \<and> c \<noteq> CHR ''n'' \<and> c \<noteq> CHR ''-'' \<and> c \<noteq> CHR ''+'' \<and> c \<noteq> CHR ''.''"
  unfolding is_digit_def Let_def by auto

lemma takeWhile_all: "list_all P xs \<Longrightarrow> takeWhile P xs = xs \<and> dropWhile P xs = []"
  by (induction xs) auto

lemma parse_value_digits:
  assumes "ds \<noteq> []" "list_all is_digit ds"
  shows "parse_value ds = Inr (PyInt (int (digits_val ds)))"
proof -
  obtain d r where ds: "ds = d # r" using assms(1) by (cases ds) auto
  have d: "is_digit d" using assms(2) ds by simp
  have l: "is_digit (last ds)" using assms by (simp add: list_all_iff)
  have s: "strip ds = ds" using strip_id[of ds] assms(1) d l ds is_digit_not_space by auto
  note c = is_digit_chars[OF d]
  have tw: "takeWhile is_digit ds = ds" and dw: "dropWhile is_digit ds = []"
    using takeWhile_all[OF assms(2)] by auto
  have om: "opt_minus ds = ds" using c ds by (simp add: opt_minus_def)
  have m: "int_match ds"
    unfolding int_match_def Let_def om tw dw using assms(1) by (simp add: at_dollar_def)
  have u: "unsigned ds = (False, ds)" using c ds by (simp add: unsigned_def)
  have i: "py_int ds = Inr (int (digits_val ds))"
    unfolding py_int_def s u using assms by simp
  show ?thesis
    unfolding parse_value.simps[of ds] s Let_def
    using c m i by (simp add: ds color_match_hd vec2_match_hd startswith_def)
qed

lemma parse_value_minus_digits:
  assumes "ds \<noteq> []" "list_all is_digit ds"
  shows "parse_value (CHR ''-'' # ds) = Inr (PyInt (- int (digits_val ds)))"
proof -
  let ?s = "CHR ''-'' # ds"
  have l: "is_digit (last ds)" using assms by (simp add: list_all_iff)
  have s: "strip ?s = ?s" using strip_id[of ?s] assms(1) l is_digit_not_space
    by (auto simp: is_space_def)
  have tw: "takeWhile is_digit ds = ds" and dw: "dropWhile is_digit ds = []"
    using takeWhile_all[OF assms(2)] by auto
  have om: "opt_minus ?s = ds" by (simp add: opt_minus_def)
  have m: "int_match ?s"
    unfolding int_match_def Let_def om tw dw using assms(1) by (simp add: at_dollar_def)
  have u: "unsigned ?s = (True, ds)" by (simp add: unsigned_def)
  have i: "py_int ?s = Inr (- int (digits_val ds))"
    unfolding py_int_def s u using assms by simp
  show ?thesis
    unfolding parse_value.simps[of ?s] s Let_def
    using m i by (simp add: color_match_hd vec2_match_hd startswith_def)
qed

text \<open>
  Claim C3. The scalar literals are classified in the order of the checks:
  \<^verbatim>\<open>true\<close> and \<^verbatim>\<open>false\<close> give the booleans, \<^verbatim>\<open>null\<close> and \<^verbatim>\<open>nil\<close> give \<^verbatim>\<open>None\<close>, \<^verbatim>\<open>-3.5\<close> gives
  the float \<open>-3.5\<close>, the quoted \<^verbatim>\<open>"hi"\<close> gives the string \<^verbatim>\<open>hi\<close>, \<^verbatim>\<open>-3\<close> gives the integer
  \<open>-3\<close>, and every non-empty text of digits, with or without a leading minus, gives the
  integer it denotes, not a float and not a string.
\<close>

theorem scalar_classification:
  "parse_value ''true'' = Inr (PyBool True)
   \<and> parse_value ''false'' = Inr (PyBool False)
   \<and> parse_value ''null'' = Inr PyNone
   \<and> parse_value ''nil'' = Inr PyNone
   \<and> parse_value ''-3.5'' = Inr (PyFloat (- 3.5))
   \<and> parse_value ''\"hi\"'' = Inr (PyStr ''hi'')
   \<and> parse_value ''-3'' = Inr (PyInt (- 3))
   \<and> (\<forall>ds. ds \<noteq> [] \<and> list_all is_digit ds \<longrightarrow>
         parse_value ds = Inr (PyInt (int (digits_val ds)))
         \<and> parse_value (CHR ''-'' # ds) = Inr (PyInt (- int (digits_val ds))))"
proof (intro conjI allI impI)
  show "parse_value ''true'' = Inr (PyBool True)" by code_simp
  show "parse_value ''false'' = Inr (PyBool False)" by code_simp
  show "parse_value ''null'' = Inr PyNone" by code_simp
  show "parse_value ''nil'' = Inr PyNone" by code_simp
  show "parse_value ''-3.5'' = Inr (PyFloat (- 3.5))" by code_simp
  show "parse_value ''\"hi\"'' = Inr (PyStr ''hi'')" by code_simp
  show "parse_value ''-3'' = Inr (PyInt (- 3))" by code_simp
next
  fix ds :: string assume "ds \<noteq> [] \<and> list_all is_digit ds"
  then show "parse_value ds = Inr (PyInt (int (digits_val ds)))" by (simp add: parse_value_digits)
next
  fix ds :: string assume "ds \<noteq> [] \<and> list_all is_digit ds"
  then show "parse_value (CHR ''-'' # ds) = Inr (PyInt (- int (digits_val ds)))"
    by (simp add: parse_value_minus_digits)
qed

theorem scalar_classification_witness:
  "''42'' \<noteq> [] \<and> list_all is_digit ''42''
   \<and> parse_value ''42'' = Inr (PyInt 42) \<and> parse_value ''-42'' = Inr (PyInt (- 42))"
proof -
  have h: "''42'' \<noteq> [] \<and> list_all is_digit ''42''" by code_simp
  have v: "int (digits_val ''42'') = 42" by code_simp
  from scalar_classification have
    "''42'' \<noteq> [] \<and> list_all is_digit ''42'' \<longrightarrow>
       parse_value ''42'' = Inr (PyInt (int (digits_val ''42'')))
       \<and> parse_value (CHR ''-'' # ''42'') = Inr (PyInt (- int (digits_val ''42'')))"
    by blast
  with h v show ?thesis by simp
qed

section \<open>The array parser\<close>

lemma top_split_nonempty: "top_split cs depth fragment in_string \<noteq> []"
  by (induction cs arbitrary: depth fragment in_string) (auto simp: Let_def)

lemma drop_blank_last_Cons:
  "fs \<noteq> [] \<Longrightarrow> drop_blank_last (f # fs) = f # drop_blank_last fs"
  by (simp add: drop_blank_last_def)

lemma array_loop_Nil:
  "array_loop [] depth current in_string items =
     (case classify_all (drop_blank_last [current]) of
        Inl e \<Rightarrow> Inl e
      | Inr vs \<Rightarrow> Inr (items @ vs))"
  unfolding array_loop.simps(1) drop_blank_last_def
  by (simp split: sum.splits)


lemma array_loop_comma:
  assumes "\<not> quote_step current c in_string" "c = CHR '',''" "depth = 0"
  shows "array_loop (c # cs) depth current in_string items =
     (case parse_value (strip current) of
        Inr v \<Rightarrow> array_loop cs depth [] False (items @ [v])
      | Inl e \<Rightarrow> Inl e)"
  using assms unfolding array_loop.simps(2)[of c cs] Let_def quote_step_def
  by (auto split: sum.splits)

lemma array_loop_other:
  assumes "\<not> (\<not> quote_step current c in_string \<and> c = CHR '','' \<and> depth = 0)"
  shows "array_loop (c # cs) depth current in_string items =
     array_loop cs (step_depth (quote_step current c in_string) c depth) (current @ [c])
       (quote_step current c in_string) items"
  using assms unfolding array_loop.simps(2)[of c cs] Let_def quote_step_def step_depth_def
  by auto

lemma top_split_comma:
  assumes "\<not> quote_step fragment c in_string" "c = CHR '',''" "depth = 0"
  shows "top_split (c # cs) depth fragment in_string = fragment # top_split cs depth [] False"
  using assms unfolding top_split.simps Let_def by simp

lemma top_split_other:
  assumes "\<not> (\<not> quote_step fragment c in_string \<and> c = CHR '','' \<and> depth = 0)"
  shows "top_split (c # cs) depth fragment in_string =
     top_split cs (step_depth (quote_step fragment c in_string) c depth) (fragment @ [c])
       (quote_step fragment c in_string)"
  using assms unfolding top_split.simps Let_def by auto


lemma array_loop_fragments:
  "array_loop cs depth current in_string items =
     (case classify_all (drop_blank_last (top_split cs depth current in_string)) of
        Inl e \<Rightarrow> Inl e
      | Inr vs \<Rightarrow> Inr (items @ vs))"
proof (induction cs arbitrary: depth current in_string items)
  case Nil
  show ?case by (simp add: array_loop_Nil)
next
  case (Cons c cs)
  show ?case
  proof (cases "\<not> quote_step current c in_string \<and> c = CHR '','' \<and> depth = 0")
    case True
    then have a: "\<not> quote_step current c in_string" "c = CHR '',''" "depth = 0" by auto
    show ?thesis
      unfolding array_loop_comma[OF a] top_split_comma[OF a]
        drop_blank_last_Cons[OF top_split_nonempty] Cons.IH
      by (simp split: sum.splits)
  next
    case False
    show ?thesis
      unfolding array_loop_other[OF False] top_split_other[OF False] Cons.IH ..
  qed
qed

lemma strip_Nil: "strip [] = []"
  by (simp add: strip_def rstrip_def lstrip_def)

lemma parse_array_fragments:
  "parse_array s =
     Inr (PyList (case classify_all (array_fragments (strip (slice_1_m1 s))) of
                    Inr vs \<Rightarrow> vs | Inl e \<Rightarrow> []))"
proof (cases "strip (slice_1_m1 s) = []")
  case True
  then show ?thesis
    unfolding parse_array.simps[of s] Let_def array_fragments_def
    by (simp add: drop_blank_last_def strip_Nil)
next
  case False
  then show ?thesis
    unfolding parse_array.simps[of s] Let_def array_fragments_def array_loop_fragments
    by (simp split: sum.splits)
qed

section \<open>The map parser\<close>

lemma store_all_append:
  "store_all (ps @ qs) result =
     (case store_all ps result of Inl e \<Rightarrow> Inl e | Inr r \<Rightarrow> store_all qs r)"
  by (induction ps arbitrary: result) (auto split: sum.splits)

lemma dict_loop_end:
  assumes "\<not> i < length content"
  shows "dict_loop content i depth key cv ins pk result =
     store_all (dict_pairs [] p depth key cv ins) result"
  using assms unfolding dict_loop.simps[of content i]
  by (auto split: option.splits sum.splits)

lemma dict_loop_colon:
  assumes "i < length content" "c = content ! i"
    "\<not> quote_step_after (prev_char content i) c ins" "c = CHR '':''" "depth = 0"
  shows "dict_loop content i depth None cv ins True result =
     dict_loop content (i + 1) depth (Some (strip_quotes (strip cv))) [] False False result"
  using assms unfolding dict_loop.simps[of content i] Let_def quote_step_after_def prev_char_def
  by (auto split: if_splits)

lemma dict_loop_comma:
  assumes "i < length content" "c = content ! i"
    "\<not> quote_step_after (prev_char content i) c ins" "c = CHR '',''" "depth = 0"
  shows "dict_loop content i depth key cv ins pk result =
     (case store_all (case key of Some k \<Rightarrow> [(k, cv)] | None \<Rightarrow> []) result of
        Inl e \<Rightarrow> Inl e
      | Inr r \<Rightarrow> dict_loop content (i + 1) depth None [] False True r)"
  using assms unfolding dict_loop.simps[of content i] Let_def quote_step_after_def prev_char_def
  by (auto split: if_splits option.splits sum.splits)

lemma dict_loop_other:
  assumes "i < length content" "c = content ! i"
    "\<not> (\<not> quote_step_after (prev_char content i) c ins \<and> c = CHR '':'' \<and> depth = 0 \<and> pk)"
    "\<not> (\<not> quote_step_after (prev_char content i) c ins \<and> c = CHR '','' \<and> depth = 0)"
  shows "dict_loop content i depth key cv ins pk result =
     dict_loop content (i + 1) (step_depth (quote_step_after (prev_char content i) c ins) c depth)
       key (cv @ [c]) (quote_step_after (prev_char content i) c ins) pk result"
  using assms unfolding dict_loop.simps[of content i] Let_def quote_step_after_def prev_char_def
    step_depth_def
  by (auto split: if_splits)


lemma prev_char_Suc: "prev_char content (i + 1) = Some (content ! i)"
  by (simp add: prev_char_def)

lemma prev_char_Suc': "prev_char content (Suc i) = Some (content ! i)"
  by (simp add: prev_char_def)

lemma dict_loop_pairs:
  "dict_loop content i depth key cv ins (key = None) result =
     store_all (dict_pairs (drop i content) (prev_char content i) depth key cv ins) result"
proof (induction "length content - i" arbitrary: i depth key cv ins result)
  case 0
  then have e: "\<not> i < length content" by simp
  then have d: "drop i content = []" by simp
  show ?case unfolding d by (rule dict_loop_end[OF e])
next
  case (Suc n)
  then have lt: "i < length content" by simp
  define c where "c = content ! i"
  have d: "drop i content = c # drop (i + 1) content"
    using lt c_def by (simp add: Cons_nth_drop_Suc)
  have n: "n = length content - (i + 1)" using Suc(2) by simp
  note IH = Suc(1)[OF n]
  let ?q = "quote_step_after (prev_char content i) c ins"
  consider (colon) "\<not> ?q \<and> c = CHR '':'' \<and> depth = 0 \<and> key = None"
    | (comma) "\<not> ?q \<and> c = CHR '','' \<and> depth = 0"
    | (other) "\<not> (\<not> ?q \<and> c = CHR '':'' \<and> depth = 0 \<and> key = None)"
              "\<not> (\<not> ?q \<and> c = CHR '','' \<and> depth = 0)"
    by blast
  then show ?case
  proof cases
    case colon
    then have a: "\<not> ?q" "c = CHR '':''" "depth = 0" and k: "key = None" by auto
    have "dict_loop content i depth None cv ins True result =
        dict_loop content (i + 1) depth (Some (strip_quotes (strip cv))) [] False
          (Some (strip_quotes (strip cv)) = None) result"
      using dict_loop_colon[OF lt c_def a] by simp
    also have "\<dots> = store_all (dict_pairs (drop (i + 1) content) (Some c) depth
          (Some (strip_quotes (strip cv))) [] False) result"
      unfolding IH prev_char_Suc c_def ..
    finally show ?thesis
      unfolding d k using a by (simp add: Let_def)
  next
    case comma
    then have a: "\<not> ?q" "c = CHR '',''" "depth = 0" by auto
    show ?thesis
      unfolding dict_loop_comma[OF lt c_def a] d
      using a IH[of depth None "[]" False]
      by (simp add: Let_def store_all_append prev_char_Suc' c_def split: sum.splits)
  next
    case other
    have o1: "\<not> (\<not> ?q \<and> c = CHR '':'' \<and> depth = 0 \<and> (key = None))" using other(1) .
    show ?thesis
      unfolding dict_loop_other[OF lt c_def o1 other(2)] d IH prev_char_Suc
      using other by (auto simp: Let_def c_def)
  qed
qed

lemma parse_dict_pairs:
  "parse_dict s =
     Inr (PyDict (case store_all (dict_pairs (strip (slice_1_m1 s)) None 0 None [] False) [] of
                    Inr result \<Rightarrow> result | Inl e \<Rightarrow> []))"
proof (cases "strip (slice_1_m1 s) = []")
  case True
  then show ?thesis unfolding parse_dict.simps[of s] Let_def by simp
next
  case False
  have "dict_loop (strip (slice_1_m1 s)) 0 0 None [] False True [] =
      store_all (dict_pairs (strip (slice_1_m1 s)) None 0 None [] False) []"
    using dict_loop_pairs[of "strip (slice_1_m1 s)" 0 0 None "[]" False "[]"]
    by (simp add: prev_char_def)
  then show ?thesis
    using False unfolding parse_dict.simps[of s] Let_def by (simp split: sum.splits)
qed

section \<open>Where the value classifier can raise\<close>

lemma strip_append_ws:
  assumes "x \<noteq> []" "\<not> is_space (hd x)" "\<not> is_space (last x)" "list_all is_space r"
  shows "strip (x @ r) = x"
proof -
  have 1: "lstrip (x @ r) = x @ r" using assms(1,2) unfolding lstrip_def by (cases x) auto
  have "dropWhile is_space (rev r @ rev x) = dropWhile is_space (rev x)"
    using assms(4) by (simp add: dropWhile_append list_all_iff)
  also have "\<dots> = rev x" using assms(1,3) by (cases "rev x") (auto simp: last_rev[symmetric] hd_rev)
  finally show ?thesis unfolding strip_def rstrip_def 1 by simp
qed

lemma at_dollar_ws: "at_dollar r \<Longrightarrow> list_all is_space r"
  unfolding at_dollar_def by (auto simp: is_space_def)

lemma int_match_py_int:
  assumes "int_match s"
  shows "\<exists>n. py_int s = Inr n"
proof -
  define t where "t = opt_minus s"
  define d where "d = takeWhile is_digit t"
  define r where "r = dropWhile is_digit t"
  have dn: "d \<noteq> []" and ar: "at_dollar r"
    using assms unfolding int_match_def Let_def t_def d_def r_def by auto
  have t: "t = d @ r" unfolding d_def r_def by simp
  have dd: "list_all is_digit d" unfolding d_def by (simp add: list_all_iff) (meson set_takeWhileD)
  have hd_d: "is_digit (hd d)" and last_d: "is_digit (last d)"
    using dn dd by (auto simp: list_all_iff)
  have ws: "list_all is_space r" using ar by (rule at_dollar_ws)
  show ?thesis
  proof (cases "s = CHR ''-'' # t")
    case True
    have s: "strip s = CHR ''-'' # d"
      using strip_append_ws[of "CHR ''-'' # d" r] dn last_d ws is_digit_not_space
      unfolding True t by (auto simp: is_space_def)
    show ?thesis unfolding py_int_def s using dn dd by (simp add: unsigned_def)
  next
    case False
    then have st: "s = t" unfolding t_def opt_minus_def by (cases s) (auto split: if_splits)
    have s: "strip s = d"
      using strip_append_ws[of d r] dn hd_d last_d ws is_digit_not_space unfolding st t by auto
    have u: "unsigned d = (False, d)"
      using dn hd_d is_digit_chars[of "hd d"] unfolding unsigned_def by (cases d) auto
    show ?thesis unfolding py_int_def s u using dn dd by simp
  qed
qed


lemma takeWhile_digits: "list_all is_digit (takeWhile is_digit t)"
  by (simp add: list_all_iff) (meson set_takeWhileD)

lemma py_float_unsigned:
  assumes "d1 \<noteq> []" "list_all is_digit d1" "list_all is_digit d2"
    "unsigned (strip s) = (neg, d1 @ CHR ''.'' # d2)"
  shows "\<exists>v. py_float s = Inr v"
proof -
  have nd: "\<not> is_digit (CHR ''.'')" by (simp add: is_digit_def)
  have t1: "takeWhile is_digit (d1 @ CHR ''.'' # d2) = d1"
    using assms(2) nd by (simp add: takeWhile_append2 list_all_iff)
  have r1: "dropWhile is_digit (d1 @ CHR ''.'' # d2) = CHR ''.'' # d2"
    using assms(2) nd by (simp add: dropWhile_append2 list_all_iff)
  have t2: "takeWhile is_digit d2 = d2" and r2: "dropWhile is_digit d2 = []"
    using takeWhile_all[OF assms(3)] by auto
  show ?thesis
    unfolding py_float_def assms(4) by (simp add: Let_def t1 r1 t2 r2 assms(1) nd)
qed

lemma float_match_py_float:
  assumes "float_match s"
  shows "\<exists>v. py_float s = Inr v"
proof -
  define t where "t = opt_minus s"
  define d1 where "d1 = takeWhile is_digit t"
  define r where "r = dropWhile is_digit t"
  define d2 where "d2 = takeWhile is_digit (tl r)"
  define r3 where "r3 = dropWhile is_digit (tl r)"
  have dn: "d1 \<noteq> []" and rn: "r \<noteq> []" and hr: "hd r = CHR ''.''" and ar: "at_dollar r3"
    using assms unfolding float_match_def Let_def t_def d1_def r_def r3_def by auto
  have r: "r = CHR ''.'' # d2 @ r3" using rn hr unfolding d2_def r3_def by (cases r) auto
  have t: "t = (d1 @ CHR ''.'' # d2) @ r3" using r unfolding d1_def r_def
    by (metis append.assoc append_Cons takeWhile_dropWhile_id)
  have dd1: "list_all is_digit d1" unfolding d1_def by (rule takeWhile_digits)
  have dd2: "list_all is_digit d2" unfolding d2_def by (rule takeWhile_digits)
  have hd_d: "is_digit (hd d1)" using dn dd1 by (auto simp: list_all_iff)
  have ws: "list_all is_space r3" using ar by (rule at_dollar_ws)
  let ?x = "d1 @ CHR ''.'' # d2"
  have lx: "\<not> is_space (last ?x)"
  proof (cases "d2 = []")
    case True then show ?thesis by (simp add: is_space_def)
  next
    case False
    then have "is_digit (last d2)" using dd2 by (auto simp: list_all_iff)
    then show ?thesis using False is_digit_not_space by simp
  qed
  have hx: "hd ?x = hd d1" using dn by simp
  show ?thesis
  proof (cases "s = CHR ''-'' # t")
    case True
    have s: "strip s = CHR ''-'' # ?x"
      using strip_append_ws[of "CHR ''-'' # ?x" r3] lx ws unfolding True t
      by (simp add: is_space_def)
    show ?thesis
      by (rule py_float_unsigned[OF dn dd1 dd2, of s True]) (simp add: s unsigned_def)
  next
    case False
    then have st: "s = t" unfolding t_def opt_minus_def by (cases s) (auto split: if_splits)
    have s: "strip s = ?x"
      using strip_append_ws[of ?x r3] lx ws dn hd_d is_digit_not_space unfolding st t
      by simp
    have u: "unsigned ?x = (False, ?x)"
      using dn hd_d is_digit_chars[of "hd d1"] unfolding unsigned_def by (cases d1) auto
    show ?thesis
      by (rule py_float_unsigned[OF dn dd1 dd2, of s False]) (simp add: s u)
  qed
qed

lemma parse_value_unmatched:
  assumes "color_match (strip raw) = None" "vec2_match (strip raw) = None"
  shows "\<exists>v. parse_value raw = Inr v"
proof -
  obtain n where n: "int_match (strip raw) \<longrightarrow> py_int (strip raw) = Inr n"
    using int_match_py_int by blast
  obtain x where x: "float_match (strip raw) \<longrightarrow> py_float (strip raw) = Inr x"
    using float_match_py_float by blast
  show ?thesis
    unfolding parse_value.simps[of raw] Let_def assms
    using n x by (simp add: parse_array_fragments parse_dict_pairs)
qed

section \<open>Fragments never hold a colour or vector literal\<close>

lemma comma_free_head_Nil: "comma_free_head []"
  by (simp add: comma_free_head_def)

lemma comma_free_head_snoc:
  assumes "comma_free_head f" "list_all plain f \<longrightarrow> c \<noteq> CHR '',''"
  shows "comma_free_head (f @ [c])"
proof (cases "list_all plain f")
  case True
  then have 1: "takeWhile plain (f @ [c]) = f @ takeWhile plain [c]"
    by (simp add: takeWhile_append2 list_all_iff)
  have 2: "takeWhile plain f = f" using True takeWhile_all by blast
  have "CHR '','' \<notin> set f" using assms(1) unfolding comma_free_head_def 2 .
  then show ?thesis using assms(2) True unfolding comma_free_head_def 1 by auto
next
  case False
  then obtain x where "x \<in> set f" "\<not> plain x" by (auto simp: list_all_iff)
  then have "takeWhile plain (f @ [c]) = takeWhile plain f" by (rule takeWhile_append1)
  then show ?thesis using assms(1) unfolding comma_free_head_def by simp
qed

lemma top_split_heads:
  assumes "comma_free_head fragment" "list_all plain fragment \<longrightarrow> depth = 0 \<and> \<not> in_string"
  shows "\<forall>f \<in> set (top_split cs depth fragment in_string). comma_free_head f"
  using assms
proof (induction cs arbitrary: depth fragment in_string)
  case Nil
  then show ?case by simp
next
  case (Cons c cs)
  let ?q = "quote_step fragment c in_string"
  show ?case
  proof (cases "\<not> ?q \<and> c = CHR '','' \<and> depth = 0")
    case True
    then have a: "\<not> ?q" "c = CHR '',''" "depth = 0" by auto
    have "\<forall>f \<in> set (top_split cs depth [] False). comma_free_head f"
      using a by (intro Cons.IH) (simp_all add: comma_free_head_Nil)
    then show ?thesis unfolding top_split_comma[OF a] using Cons.prems(1) by simp
  next
    case False
    have 1: "comma_free_head (fragment @ [c])"
    proof (rule comma_free_head_snoc[OF Cons.prems(1)], rule impI)
      assume p: "list_all plain fragment"
      then have "depth = 0" "\<not> in_string" using Cons.prems(2) by auto
      then show "c \<noteq> CHR '',''" using False by (auto simp: quote_step_def)
    qed
    have 2: "list_all plain (fragment @ [c]) \<longrightarrow> step_depth ?q c depth = 0 \<and> \<not> ?q"
    proof
      assume "list_all plain (fragment @ [c])"
      then have p: "list_all plain fragment" and c: "plain c" by auto
      from p have "depth = 0" "\<not> in_string" using Cons.prems(2) by auto
      then show "step_depth ?q c depth = 0 \<and> \<not> ?q"
        using c by (simp add: plain_def step_depth_def quote_step_def)
    qed
    show ?thesis unfolding top_split_other[OF False] by (rule Cons.IH[OF 1 2])
  qed
qed


lemma comma_after_plain:
  assumes "list_all plain p"
  shows "\<not> comma_free_head (p @ CHR '','' # r)"
proof -
  have "takeWhile plain (p @ CHR '','' # r) = p @ takeWhile plain (CHR '','' # r)"
    using assms by (simp add: takeWhile_append2 list_all_iff)
  then show ?thesis by (simp add: comma_free_head_def plain_def)
qed

lemma is_space_plain: "is_space c \<Longrightarrow> plain c"
  by (auto simp: is_space_def plain_def)

lemma takeWhile_space_plain: "list_all plain (takeWhile is_space t)"
  by (simp add: list_all_iff) (meson is_space_plain set_takeWhileD)

lemma lit_Some: "lit p s = Some t \<Longrightarrow> s = p @ t"
  unfolding lit_def by (auto split: if_splits) (metis append_take_drop_id)

lemma many1_Some: "many1 P s = Some (g, t) \<Longrightarrow> s = g @ t \<and> list_all P g"
  unfolding many1_def by (auto split: if_splits simp: list_all_iff dest: set_takeWhileD)

lemma lstrip_split: "t = takeWhile is_space t @ lstrip t"
  by (simp add: lstrip_def)

lemma literal_head_has_comma:
  assumes "lit p s = Some t" "list_all plain p" "many1 P (lstrip t) = Some (g, t2)"
    "\<And>c. P c \<Longrightarrow> plain c" "lit '','' (lstrip t2) = Some t3"
  shows "\<not> comma_free_head s"
proof -
  have g: "lstrip t = g @ t2" "list_all P g" using many1_Some[OF assms(3)] by auto
  have pg: "list_all plain g" using g(2) assms(4) by (auto simp: list_all_iff)
  have c: "lstrip t2 = CHR '','' # t3" using lit_Some[OF assms(5)] by simp
  have "s = p @ takeWhile is_space t @ g @ takeWhile is_space t2 @ CHR '','' # t3"
    using lit_Some[OF assms(1)] lstrip_split[of t] lstrip_split[of t2] g(1) c by simp
  then have "s = (p @ takeWhile is_space t @ g @ takeWhile is_space t2) @ CHR '','' # t3"
    by simp
  moreover have "list_all plain (p @ takeWhile is_space t @ g @ takeWhile is_space t2)"
    using assms(2) pg takeWhile_space_plain by simp
  ultimately show ?thesis using comma_after_plain by metis
qed

lemma color_class_plain: "color_class c \<Longrightarrow> plain c"
  by (auto simp: color_class_def plain_def is_digit_def)

lemma vec2_class_plain: "vec2_class c \<Longrightarrow> plain c"
  by (auto simp: vec2_class_def plain_def is_digit_def)

lemma color_match_comma: "comma_free_head s \<Longrightarrow> color_match s = None"
proof (rule ccontr)
  assume h: "comma_free_head s" and "color_match s \<noteq> None"
  then obtain t g t2 t3 where f1: "lit ''Color('' s = Some t"
      and f2: "many1 color_class (lstrip t) = Some (g, t2)" and f3: "lit '','' (lstrip t2) = Some t3"
    unfolding color_match_def by (auto simp: bind_eq_Some_conv split: prod.splits)
  have "\<not> comma_free_head s"
    by (rule literal_head_has_comma[OF f1 _ f2 _ f3]) (simp add: plain_def, rule color_class_plain)
  then show False using h by simp
qed

lemma vec2_match_comma: "comma_free_head s \<Longrightarrow> vec2_match s = None"
proof (rule ccontr)
  assume h: "comma_free_head s" and "vec2_match s \<noteq> None"
  then obtain t g t2 t3 where f1: "lit ''Vector2('' s = Some t"
      and f2: "many1 vec2_class (lstrip t) = Some (g, t2)" and f3: "lit '','' (lstrip t2) = Some t3"
    unfolding vec2_match_def by (auto simp: bind_eq_Some_conv split: prod.splits)
  have "\<not> comma_free_head s"
    by (rule literal_head_has_comma[OF f1 _ f2 _ f3]) (simp add: plain_def, rule vec2_class_plain)
  then show False using h by simp
qed

lemma comma_free_head_prefix: "comma_free_head (a @ b) \<Longrightarrow> comma_free_head a"
proof -
  have "set (takeWhile plain a) \<subseteq> set (takeWhile plain (a @ b))"
    by (induction a) auto
  then show "comma_free_head (a @ b) \<Longrightarrow> comma_free_head a"
    unfolding comma_free_head_def by auto
qed

lemma comma_free_head_lstrip: "comma_free_head f \<Longrightarrow> comma_free_head (lstrip f)"
proof -
  assume a: "comma_free_head f"
  have "takeWhile plain (takeWhile is_space f @ lstrip f)
      = takeWhile is_space f @ takeWhile plain (lstrip f)"
    using takeWhile_space_plain[of f] by (simp add: takeWhile_append2 list_all_iff)
  then have "takeWhile plain f = takeWhile is_space f @ takeWhile plain (lstrip f)"
    using lstrip_split[of f] by simp
  then show ?thesis using a unfolding comma_free_head_def by simp
qed

lemma rstrip_split: "y = rstrip y @ rev (takeWhile is_space (rev y))"
proof -
  have "y = rev (takeWhile is_space (rev y) @ dropWhile is_space (rev y))" by simp
  also have "\<dots> = rev (dropWhile is_space (rev y)) @ rev (takeWhile is_space (rev y))"
    by (rule rev_append)
  finally show ?thesis unfolding rstrip_def .
qed

lemma comma_free_head_strip: "comma_free_head f \<Longrightarrow> comma_free_head (strip f)"
proof -
  assume "comma_free_head f"
  then have "comma_free_head (lstrip f)" by (rule comma_free_head_lstrip)
  then have "comma_free_head (rstrip (lstrip f) @ rev (takeWhile is_space (rev (lstrip f))))"
    using rstrip_split[of "lstrip f"] by simp
  then show ?thesis unfolding strip_def by (rule comma_free_head_prefix)
qed

lemma parse_value_fragment:
  assumes "comma_free_head f"
  shows "\<exists>v. parse_value (strip f) = Inr v"
proof -
  have "comma_free_head (strip (strip f))"
    using assms by (intro comma_free_head_strip)
  then show ?thesis
    by (intro parse_value_unmatched color_match_comma vec2_match_comma)
qed

lemma classify_all_total:
  assumes "\<forall>f \<in> set fs. comma_free_head f"
  shows "\<exists>vs. classify_all fs = Inr vs \<and> list_all2 (\<lambda>f v. parse_value (strip f) = Inr v) fs vs"
  using assms
proof (induction fs)
  case Nil
  then show ?case by simp
next
  case (Cons f fs)
  obtain v where v: "parse_value (strip f) = Inr v"
    using parse_value_fragment[of f] Cons.prems by auto
  obtain vs where vs: "classify_all fs = Inr vs"
      "list_all2 (\<lambda>f v. parse_value (strip f) = Inr v) fs vs"
    using Cons by auto
  show ?case using v vs by simp
qed

lemma set_drop_blank_last: "set (drop_blank_last fs) \<subseteq> set fs"
  unfolding drop_blank_last_def by (auto dest: in_set_butlastD)

lemma array_fragments_heads: "\<forall>f \<in> set (array_fragments content). comma_free_head f"
  unfolding array_fragments_def
  using top_split_heads[of "[]" 0 False content] set_drop_blank_last
  by (auto simp: comma_free_head_Nil)

lemma parse_array_elements:
  "\<exists>vs. parse_array s = Inr (PyList vs)
     \<and> list_all2 (\<lambda>f v. parse_value (strip f) = Inr v)
          (array_fragments (strip (slice_1_m1 s))) vs"
proof -
  obtain vs where "classify_all (array_fragments (strip (slice_1_m1 s))) = Inr vs"
    "list_all2 (\<lambda>f v. parse_value (strip f) = Inr v) (array_fragments (strip (slice_1_m1 s))) vs"
    using classify_all_total[OF array_fragments_heads] by blast
  then show ?thesis unfolding parse_array_fragments by simp
qed

lemma dict_pairs_colon:
  assumes "\<not> quote_step_after prev c in_string" "c = CHR '':''" "depth = 0"
  shows "dict_pairs (c # cs) prev depth None text in_string =
     dict_pairs cs (Some c) depth (Some (strip_quotes (strip text))) [] False"
  using assms unfolding dict_pairs.simps Let_def by simp

lemma dict_pairs_comma:
  assumes "\<not> quote_step_after prev c in_string" "c = CHR '',''" "depth = 0"
  shows "dict_pairs (c # cs) prev depth key text in_string =
     (case key of Some k \<Rightarrow> [(k, text)] | None \<Rightarrow> []) @ dict_pairs cs (Some c) depth None [] False"
  using assms unfolding dict_pairs.simps Let_def by simp

lemma dict_pairs_other:
  assumes "\<not> (\<not> quote_step_after prev c in_string \<and> c = CHR '':'' \<and> depth = 0 \<and> key = None)"
    "\<not> (\<not> quote_step_after prev c in_string \<and> c = CHR '','' \<and> depth = 0)"
  shows "dict_pairs (c # cs) prev depth key text in_string =
     dict_pairs cs (Some c) (step_depth (quote_step_after prev c in_string) c depth) key
       (text @ [c]) (quote_step_after prev c in_string)"
  using assms unfolding dict_pairs.simps Let_def by auto

lemma dict_pairs_heads:
  assumes "comma_free_head cur" "list_all plain cur \<longrightarrow> depth = 0 \<and> \<not> in_string"
  shows "\<forall>(k, t) \<in> set (dict_pairs cs prev depth key cur in_string). comma_free_head t"
  using assms
proof (induction cs arbitrary: prev depth key cur in_string)
  case Nil
  then show ?case by (auto split: option.splits)
next
  case (Cons c cs)
  let ?q = "quote_step_after prev c in_string"
  consider (colon) "\<not> ?q \<and> c = CHR '':'' \<and> depth = 0 \<and> key = None"
    | (comma) "\<not> ?q \<and> c = CHR '','' \<and> depth = 0"
    | (other) "\<not> (\<not> ?q \<and> c = CHR '':'' \<and> depth = 0 \<and> key = None)"
              "\<not> (\<not> ?q \<and> c = CHR '','' \<and> depth = 0)"
    by blast
  then show ?case
  proof cases
    case colon
    then have a: "\<not> ?q" "c = CHR '':''" "depth = 0" and k: "key = None" by auto
    show ?thesis unfolding k dict_pairs_colon[OF a]
      using a by (intro Cons.IH) (simp_all add: comma_free_head_Nil)
  next
    case comma
    then have a: "\<not> ?q" "c = CHR '',''" "depth = 0" by auto
    have "\<forall>(k, t) \<in> set (dict_pairs cs (Some c) depth None [] False). comma_free_head t"
      using a by (intro Cons.IH) (simp_all add: comma_free_head_Nil)
    then show ?thesis unfolding dict_pairs_comma[OF a]
      using Cons.prems(1) by (auto split: option.splits)
  next
    case other
    have 1: "comma_free_head (cur @ [c])"
    proof (rule comma_free_head_snoc[OF Cons.prems(1)], rule impI)
      assume p: "list_all plain cur"
      then have "depth = 0" "\<not> in_string" using Cons.prems(2) by auto
      then show "c \<noteq> CHR '',''" using other(2) by (auto simp: quote_step_after_def)
    qed
    have 2: "list_all plain (cur @ [c]) \<longrightarrow> step_depth ?q c depth = 0 \<and> \<not> ?q"
    proof
      assume "list_all plain (cur @ [c])"
      then have p: "list_all plain cur" and c: "plain c" by auto
      from p have "depth = 0" "\<not> in_string" using Cons.prems(2) by auto
      then show "step_depth ?q c depth = 0 \<and> \<not> ?q"
        using c by (simp add: plain_def step_depth_def quote_step_after_def)
    qed
    show ?thesis unfolding dict_pairs_other[OF other] by (rule Cons.IH[OF 1 2])
  qed
qed

lemma store_all_total:
  assumes "\<forall>(k, t) \<in> set ps. comma_free_head t"
  shows "\<exists>r. store_all ps result = Inr r"
  using assms
proof (induction ps arbitrary: result)
  case Nil
  then show ?case by simp
next
  case (Cons p ps)
  obtain k t where p: "p = (k, t)" by (cases p)
  obtain v where v: "parse_value (strip t) = Inr v"
    using parse_value_fragment[of t] Cons.prems p by auto
  show ?case unfolding p using v Cons by simp
qed

lemma parse_dict_entries:
  "\<exists>r. store_all (dict_pairs (strip (slice_1_m1 s)) None 0 None [] False) [] = Inr r
     \<and> parse_dict s = Inr (PyDict r)"
proof -
  have "\<forall>(k, t) \<in> set (dict_pairs (strip (slice_1_m1 s)) None 0 None [] False).
      comma_free_head t"
    by (rule dict_pairs_heads) (simp_all add: comma_free_head_Nil)
  then obtain r where
    "store_all (dict_pairs (strip (slice_1_m1 s)) None 0 None [] False) [] = Inr r"
    using store_all_total by blast
  then show ?thesis unfolding parse_dict_pairs by simp
qed

section \<open>The claims about the classifier and the composite parsers\<close>

lemma strip_strip: "strip (strip s) = strip s"
proof (cases "strip s = []")
  case True
  then show ?thesis by (simp add: strip_Nil)
next
  case False
  define x where "x = strip s"
  have l: "lstrip s \<noteq> []" using False unfolding strip_def rstrip_def by auto
  have h: "\<not> is_space (hd (lstrip s))" using l unfolding lstrip_def by (rule hd_dropWhile)
  have r: "dropWhile is_space (rev (lstrip s)) \<noteq> []"
    using False unfolding strip_def rstrip_def by simp
  have la: "\<not> is_space (last x)"
    using hd_dropWhile[OF r] r unfolding x_def strip_def rstrip_def by (simp add: last_rev)
  have "lstrip s = x @ rev (takeWhile is_space (rev (lstrip s)))"
    unfolding x_def strip_def by (rule rstrip_split)
  then have "hd (lstrip s) = hd x" using False x_def by (metis hd_append2)
  then have "\<not> is_space (hd x)" using h by simp
  then show ?thesis using strip_id[of x] la False unfolding x_def by simp
qed

lemma parse_value_bracket:
  assumes "startswith (strip raw) ''[''"
  shows "parse_value raw = parse_array (strip raw)"
proof -
  obtain r where s: "strip raw = CHR ''['' # r"
    using assms unfolding startswith_def by (cases "strip raw") auto
  show ?thesis
    unfolding parse_value.simps[of raw] Let_def s
    by (simp add: color_match_hd vec2_match_hd startswith_def)
qed

lemma parse_value_brace:
  assumes "startswith (strip raw) ''{''"
  shows "parse_value raw = parse_dict (strip raw)"
proof -
  obtain r where s: "strip raw = CHR ''{'' # r"
    using assms unfolding startswith_def by (cases "strip raw") auto
  show ?thesis
    unfolding parse_value.simps[of raw] Let_def s
    by (simp add: color_match_hd vec2_match_hd startswith_def)
qed




text \<open>
  Claim C1, at the input where it fails. The colour pattern accepts any run of digits
  and points as a component, and \<^verbatim>\<open>float()\<close> raises \<^verbatim>\<open>ValueError\<close> on \<^verbatim>\<open>1.2.3\<close>; the vector
  pattern accepts \<^verbatim>\<open>1-2\<close> likewise. \<^verbatim>\<open>parse_value\<close> does not catch the exception, and
  neither does \<^verbatim>\<open>parse_tres_file\<close>, so the classifier fails on these texts.
\<close>

theorem classifier_raises:
  "parse_value ''Color(1.2.3, 0, 0, 1)'' = Inl ValueError
   \<and> parse_value ''Vector2(1-2, 0)'' = Inl ValueError
   \<and> parse_tres_file (''[resource]'' @ [newline] @ ''tint = Color(1.2.3, 0, 0, 1)'')
       = Inl ValueError"
  by code_simp

theorem classifier_raises_witness:
  "parse_value ''Color(1.2.3, 0, 0, 1)'' = Inl ValueError"
  using classifier_raises by simp




text \<open>
  Claim C4. The array parser returns the array of the classified fragments of the text
  between the brackets, where the fragments are cut at the commas at depth 0 outside
  quoted strings and each fragment is trimmed before it is classified; classifying a
  fragment never fails. A text that starts with \<^verbatim>\<open>[\<close> is given to the array parser. A
  blank text between the brackets gives the empty array. The text
  \<^verbatim>\<open>[1, [2, 3], "a,b"]\<close> is cut into three fragments and gives the array of \<open>1\<close>, the array
  of \<open>2\<close> and \<open>3\<close>, and the string \<^verbatim>\<open>a,b\<close>.
\<close>

theorem array_parser_top_level_split:
  "(\<exists>vs. parse_array s = Inr (PyList vs)
      \<and> list_all2 (\<lambda>f v. parse_value (strip f) = Inr v)
           (array_fragments (strip (slice_1_m1 s))) vs)
   \<and> (startswith (strip raw) ''['' \<longrightarrow> parse_value raw = parse_array (strip raw))
   \<and> (strip (slice_1_m1 s) = [] \<longrightarrow> parse_array s = Inr (PyList []))
   \<and> array_fragments ''1, [2, 3], \"a,b\"'' = [''1'', '' [2, 3]'', '' \"a,b\"'']
   \<and> parse_value ''[1, [2, 3], \"a,b\"]''
       = Inr (PyList [PyInt 1, PyList [PyInt 2, PyInt 3], PyStr ''a,b''])
   \<and> parse_value ''[]'' = Inr (PyList [])"
proof (intro conjI impI)
  show "\<exists>vs. parse_array s = Inr (PyList vs)
      \<and> list_all2 (\<lambda>f v. parse_value (strip f) = Inr v)
           (array_fragments (strip (slice_1_m1 s))) vs"
    by (rule parse_array_elements)
next
  assume "startswith (strip raw) ''[''"
  then show "parse_value raw = parse_array (strip raw)" by (rule parse_value_bracket)
next
  assume "strip (slice_1_m1 s) = []"
  then show "parse_array s = Inr (PyList [])"
    unfolding parse_array.simps[of s] Let_def by simp
next
  show "array_fragments ''1, [2, 3], \"a,b\"'' = [''1'', '' [2, 3]'', '' \"a,b\"'']"
    by code_simp
next
  show "parse_value ''[1, [2, 3], \"a,b\"]''
       = Inr (PyList [PyInt 1, PyList [PyInt 2, PyInt 3], PyStr ''a,b''])"
    by code_simp
next
  show "parse_value ''[]'' = Inr (PyList [])" by code_simp
qed

theorem array_parser_top_level_split_witness:
  "startswith (strip '' [7, 8]'') ''[''
   \<and> parse_value '' [7, 8]'' = parse_array ''[7, 8]''
   \<and> strip (slice_1_m1 ''[  ]'') = []
   \<and> parse_array ''[  ]'' = Inr (PyList [])"
proof -
  have h: "startswith (strip '' [7, 8]'') ''[''" by code_simp
  have st: "strip '' [7, 8]'' = ''[7, 8]''" by code_simp
  have b: "strip (slice_1_m1 ''[  ]'') = []" by code_simp
  from array_parser_top_level_split[of "''[  ]''" "'' [7, 8]''"] h b st
  show ?thesis by simp
qed

text \<open>
  Claim C5, as stated, fails on the key: the map parser removes every leading and every
  trailing double quote of the key text, not one pair. The key text \<^verbatim>\<open>""a""\<close> becomes
  the key \<^verbatim>\<open>a\<close>, where taking off one pair of quotes would leave \<^verbatim>\<open>"a"\<close>.
\<close>

theorem map_key_quotes_counterexample:
  "parse_dict ''{\"\"a\"\": 1}'' = Inr (PyDict [(''a'', PyInt 1)])
   \<and> unquote_pair (strip ''\"\"a\"\"'') = ''\"a\"''
   \<and> parse_dict ''{\"\"a\"\": 1}''
       \<noteq> Inr (PyDict [(unquote_pair (strip ''\"\"a\"\"''), PyInt 1)])"
  by code_simp

text \<open>
  Claim C5, amended. The map parser returns the dictionary built by storing, in the
  order of the scan, every committed entry: its key is the trimmed key text before the
  first colon at depth 0 outside a string, with all leading and trailing double quotes
  removed and never classified, and its value is the classified trimmed value text;
  classifying a value text never fails. A text that starts with \<^verbatim>\<open>{\<close> is given to the map
  parser. A blank text between the braces gives the empty dictionary. The text
  \<^verbatim>\<open>{"a": 1, "b": [1,2]}\<close> gives the key \<^verbatim>\<open>a\<close> with \<open>1\<close> and the key \<^verbatim>\<open>b\<close> with the array of
  \<open>1\<close> and \<open>2\<close>.
\<close>

theorem map_parser_entries:
  "(\<exists>r. store_all (dict_pairs (strip (slice_1_m1 s)) None 0 None [] False) [] = Inr r
      \<and> parse_dict s = Inr (PyDict r))
   \<and> (startswith (strip raw) ''{'' \<longrightarrow> parse_value raw = parse_dict (strip raw))
   \<and> (strip (slice_1_m1 s) = [] \<longrightarrow> parse_dict s = Inr (PyDict []))
   \<and> dict_pairs ''\"a\": 1, \"b\": [1,2]'' None 0 None [] False
       = [(''a'', '' 1''), (''b'', '' [1,2]'')]
   \<and> parse_value ''{\"a\": 1, \"b\": [1,2]}''
       = Inr (PyDict [(''a'', PyInt 1), (''b'', PyList [PyInt 1, PyInt 2])])
   \<and> parse_dict ''{\"\"a\"\": 1}'' = Inr (PyDict [(''a'', PyInt 1)])
   \<and> parse_value ''{}'' = Inr (PyDict [])"
proof (intro conjI impI)
  show "\<exists>r. store_all (dict_pairs (strip (slice_1_m1 s)) None 0 None [] False) [] = Inr r
      \<and> parse_dict s = Inr (PyDict r)"
    by (rule parse_dict_entries)
next
  assume "startswith (strip raw) ''{''"
  then show "parse_value raw = parse_dict (strip raw)" by (rule parse_value_brace)
next
  assume "strip (slice_1_m1 s) = []"
  then show "parse_dict s = Inr (PyDict [])"
    unfolding parse_dict.simps[of s] Let_def by simp
next
  show "dict_pairs ''\"a\": 1, \"b\": [1,2]'' None 0 None [] False
       = [(''a'', '' 1''), (''b'', '' [1,2]'')]"
    by code_simp
next
  show "parse_value ''{\"a\": 1, \"b\": [1,2]}''
       = Inr (PyDict [(''a'', PyInt 1), (''b'', PyList [PyInt 1, PyInt 2])])"
    by code_simp
next
  show "parse_dict ''{\"\"a\"\": 1}'' = Inr (PyDict [(''a'', PyInt 1)])" by code_simp
next
  show "parse_value ''{}'' = Inr (PyDict [])" by code_simp
qed

theorem map_parser_entries_witness:
  "startswith (strip '' {k: 7}'') ''{''
   \<and> parse_value '' {k: 7}'' = parse_dict ''{k: 7}''
   \<and> strip (slice_1_m1 ''{  }'') = []
   \<and> parse_dict ''{  }'' = Inr (PyDict [])"
proof -
  have h: "startswith (strip '' {k: 7}'') ''{''" by code_simp
  have st: "strip '' {k: 7}'' = ''{k: 7}''" by code_simp
  have b: "strip (slice_1_m1 ''{  }'') = []" by code_simp
  from map_parser_entries[of "''{  }''" "'' {k: 7}''"] h b st
  show ?thesis by simp
qed

text \<open>
  Claim C8, at an input where it fails. The comment in \<^verbatim>\<open>convert_path\<close> says that the
  \<^verbatim>\<open>res://\<close> prefix is removed, but \<^verbatim>\<open>str.replace\<close> removes the marker wherever it
  occurs, so characters that are not a prefix are changed too.
\<close>

theorem convert_path_inner_marker:
  "convert_path ''mods/res://icon.png'' = ''mods/icon.png''
   \<and> convert_path ''res://res://icon.png'' = ''icon.png''"
  by code_simp

theorem convert_path_inner_marker_witness:
  "convert_path ''mods/res://icon.png'' \<noteq> ''mods/res://icon.png''"
  using convert_path_inner_marker by simp

section \<open>Text after a colour or vector literal\<close>

lemma lit_append: "lit p s = Some t \<Longrightarrow> lit p (s @ u) = Some (t @ u)"
proof -
  assume a: "lit p s = Some t"
  then have s: "s = p @ t" by (rule lit_Some)
  show ?thesis unfolding s lit_def by simp
qed

lemma lstrip_append: "lstrip t \<noteq> [] \<Longrightarrow> lstrip (t @ u) = lstrip t @ u"
  unfolding lstrip_def by (auto simp: dropWhile_append dropWhile_eq_Nil_conv)

lemma many1_append:
  assumes "many1 P s = Some (g, t)" "t \<noteq> []"
  shows "many1 P (s @ u) = Some (g, t @ u)"
proof -
  have g: "takeWhile P s = g" "dropWhile P s = t" "g \<noteq> []"
    using assms(1) unfolding many1_def by (auto split: if_splits)
  have "hd t \<in> set s" "\<not> P (hd t)"
    using g(2) assms(2) hd_dropWhile[of P s]
    by (metis hd_in_set set_dropWhileD, metis)
  then have "takeWhile P (s @ u) = g" "dropWhile P (s @ u) = t @ u"
    using g by (simp_all add: takeWhile_append1 dropWhile_append1)
  then show ?thesis unfolding many1_def using g(3) by simp
qed

lemma group_then_lit:
  assumes "many1 P (lstrip t) = Some (g, r)" "lit p (lstrip r) = Some r'" "p \<noteq> []"
  shows "many1 P (lstrip (t @ u)) = Some (g, r @ u) \<and> lit p (lstrip (r @ u)) = Some (r' @ u)"
proof -
  have 1: "lstrip r \<noteq> []" using lit_Some[OF assms(2)] assms(3) by simp
  then have r: "r \<noteq> []" unfolding lstrip_def by auto
  have 2: "lstrip t \<noteq> []" using many1_Some[OF assms(1)] r by auto
  show ?thesis
    unfolding lstrip_append[OF 1] lstrip_append[OF 2]
    using many1_append[OF assms(1) r] lit_append[OF assms(2)] by simp
qed

lemma color_match_append:
  assumes "color_match s = Some g"
  shows "color_match (s @ u) = Some g"
proof -
  obtain t0 g1 t1 t2 g2 t3 t4 g3 t5 t6 g4 t7 t8 where
    l0: "lit ''Color('' s = Some t0" and
    m1: "many1 color_class (lstrip t0) = Some (g1, t1)" and l1: "lit '','' (lstrip t1) = Some t2" and
    m2: "many1 color_class (lstrip t2) = Some (g2, t3)" and l2: "lit '','' (lstrip t3) = Some t4" and
    m3: "many1 color_class (lstrip t4) = Some (g3, t5)" and l3: "lit '','' (lstrip t5) = Some t6" and
    m4: "many1 color_class (lstrip t6) = Some (g4, t7)" and l4: "lit '')'' (lstrip t7) = Some t8" and
    g: "g = (g1, g2, g3, g4)"
    using assms unfolding color_match_def
    by (auto simp: bind_eq_Some_conv split: prod.splits)
  show ?thesis
    unfolding color_match_def g
    using lit_append[OF l0, of u] group_then_lit[OF m1 l1, of u] group_then_lit[OF m2 l2, of u]
      group_then_lit[OF m3 l3, of u] group_then_lit[OF m4 l4, of u]
    by simp
qed

lemma vec2_match_append:
  assumes "vec2_match s = Some g"
  shows "vec2_match (s @ u) = Some g"
proof -
  obtain t0 g1 t1 t2 g2 t3 t4 where
    l0: "lit ''Vector2('' s = Some t0" and
    m1: "many1 vec2_class (lstrip t0) = Some (g1, t1)" and l1: "lit '','' (lstrip t1) = Some t2" and
    m2: "many1 vec2_class (lstrip t2) = Some (g2, t3)" and l2: "lit '')'' (lstrip t3) = Some t4" and
    g: "g = (g1, g2)"
    using assms unfolding vec2_match_def
    by (auto simp: bind_eq_Some_conv split: prod.splits)
  show ?thesis
    unfolding vec2_match_def g
    using lit_append[OF l0, of u] group_then_lit[OF m1 l1, of u] group_then_lit[OF m2 l2, of u]
    by simp
qed


lemma rstrip_append:
  assumes "p \<noteq> []" "\<not> is_space (last p)"
  shows "rstrip (p @ z) = p @ rstrip z"
proof (cases "\<forall>x \<in> set (rev z). is_space x")
  case True
  have "dropWhile is_space (rev p) = rev p"
    using assms by (cases "rev p") (auto simp: last_rev[symmetric] hd_rev)
  moreover have "dropWhile is_space (rev z) = []" using True by simp
  ultimately show ?thesis unfolding rstrip_def using True by (simp add: dropWhile_append)
next
  case False
  then show ?thesis unfolding rstrip_def by (auto simp: dropWhile_append)
qed

lemma strip_literal_append:
  assumes "s \<noteq> []" "\<not> is_space (hd s)" "\<not> is_space (last s)"
  shows "strip (s @ t) = s @ rstrip t"
proof -
  have "lstrip (s @ t) = s @ t" using assms(1,2) unfolding lstrip_def by (cases s) auto
  then show ?thesis unfolding strip_def using rstrip_append[OF assms(1,3)] by simp
qed

lemma color_literal_trailing:
  assumes "color_match s = Some (g1, g2, g3, g4)" "endswith s '')''"
  shows "parse_value (s @ t) =
     (case (py_float g1, py_float g2, py_float g3, py_float g4) of
        (Inr r, Inr g, Inr b, Inr a) \<Rightarrow> Inr (Color r g b a)
      | _ \<Rightarrow> Inl ValueError)"
proof -
  obtain r0 where "lit ''Color('' s = Some r0"
    using assms(1) unfolding color_match_def by (auto simp: bind_eq_Some_conv)
  then have s: "s = ''Color('' @ r0" by (rule lit_Some)
  have ne: "s \<noteq> []" and h: "\<not> is_space (hd s)" unfolding s by (simp_all add: is_space_def)
  have "last s = CHR '')''" using assms(2) ne unfolding endswith_def
    by (metis append_butlast_last_id append_eq_conv_conj diff_Suc_1 length_Cons length_butlast
        list.size(3) last_snoc append_take_drop_id)
  then have l: "\<not> is_space (last s)" by (simp add: is_space_def)
  have st: "strip (s @ t) = s @ rstrip t" by (rule strip_literal_append[OF ne h l])
  have m: "color_match (s @ rstrip t) = Some (g1, g2, g3, g4)"
    by (rule color_match_append[OF assms(1)])
  show ?thesis
    unfolding parse_value.simps[of "s @ t"] Let_def st m
    by (simp add: s)
qed

lemma vec2_literal_trailing:
  assumes "vec2_match s = Some (g1, g2)" "endswith s '')''"
  shows "parse_value (s @ t) =
     (case (py_float g1, py_float g2) of
        (Inr x, Inr y) \<Rightarrow> Inr (Vector2 x y)
      | _ \<Rightarrow> Inl ValueError)"
proof -
  obtain r0 where "lit ''Vector2('' s = Some r0"
    using assms(1) unfolding vec2_match_def by (auto simp: bind_eq_Some_conv)
  then have s: "s = ''Vector2('' @ r0" by (rule lit_Some)
  have ne: "s \<noteq> []" and h: "\<not> is_space (hd s)" unfolding s by (simp_all add: is_space_def)
  have "last s = CHR '')''" using assms(2) ne unfolding endswith_def
    by (metis append_butlast_last_id append_eq_conv_conj diff_Suc_1 length_Cons length_butlast
        list.size(3) last_snoc append_take_drop_id)
  then have l: "\<not> is_space (last s)" by (simp add: is_space_def)
  have st: "strip (s @ t) = s @ rstrip t" by (rule strip_literal_append[OF ne h l])
  have m: "vec2_match (s @ rstrip t) = Some (g1, g2)"
    by (rule vec2_match_append[OF assms(1)])
  have c: "color_match (s @ rstrip t) = None" by (rule color_match_hd) (simp add: s)
  show ?thesis
    unfolding parse_value.simps[of "s @ t"] Let_def st m c
    by (simp add: s)
qed


text \<open>
  Claim C10. The colour and vector patterns are matched at the start of the text only.
  When a text \<open>s\<close> that ends with its closing parenthesis matches the colour pattern
  with components that \<^verbatim>\<open>float()\<close> accepts, then for every trailing text \<open>t\<close> the
  classifier returns on \<open>s @ t\<close> the dictionary that maps \<open>r\<close>, \<open>g\<close>, \<open>b\<close> and \<open>a\<close>, in this
  order, to the four components read as floats; likewise, for a text \<open>s'\<close> that matches
  the vector pattern, it returns on \<open>s' @ t'\<close> the dictionary that maps \<open>x\<close> and \<open>y\<close> to the
  two components. The text \<^verbatim>\<open>Vector2(1, 2) extra\<close> gives the dictionary of \<open>x = 1\<close> and
  \<open>y = 2\<close>, and \<^verbatim>\<open>Color(1, 0.5, 0, 1)junk\<close> the dictionary of \<open>r = 1\<close>, \<open>g = 0.5\<close>, \<open>b = 0\<close> and
  \<open>a = 1\<close>; the same literals with nothing after them give the same dictionaries.
\<close>

theorem literal_trailing_text_ignored:
  "(color_match s = Some (g1, g2, g3, g4) \<and> endswith s '')''
      \<and> py_float g1 = Inr r \<and> py_float g2 = Inr g \<and> py_float g3 = Inr b \<and> py_float g4 = Inr a
      \<longrightarrow> parse_value (s @ t)
            = Inr (PyDict [(''r'', PyFloat r), (''g'', PyFloat g),
                           (''b'', PyFloat b), (''a'', PyFloat a)]))
   \<and> (vec2_match s' = Some (h1, h2) \<and> endswith s' '')''
      \<and> py_float h1 = Inr x \<and> py_float h2 = Inr y
      \<longrightarrow> parse_value (s' @ t') = Inr (PyDict [(''x'', PyFloat x), (''y'', PyFloat y)]))
   \<and> parse_value ''Vector2(1, 2) extra'' = Inr (PyDict [(''x'', PyFloat 1), (''y'', PyFloat 2)])
   \<and> parse_value ''Vector2(1, 2)'' = Inr (PyDict [(''x'', PyFloat 1), (''y'', PyFloat 2)])
   \<and> parse_value ''Color(1, 0.5, 0, 1)junk''
       = Inr (PyDict [(''r'', PyFloat 1), (''g'', PyFloat (1 / 2)),
                      (''b'', PyFloat 0), (''a'', PyFloat 1)])
   \<and> parse_value ''Color(1, 0.5, 0, 1)''
       = Inr (PyDict [(''r'', PyFloat 1), (''g'', PyFloat (1 / 2)),
                      (''b'', PyFloat 0), (''a'', PyFloat 1)])"
proof (intro conjI impI)
  assume a: "color_match s = Some (g1, g2, g3, g4) \<and> endswith s '')''
      \<and> py_float g1 = Inr r \<and> py_float g2 = Inr g \<and> py_float g3 = Inr b \<and> py_float g4 = Inr a"
  then have "color_match s = Some (g1, g2, g3, g4)" "endswith s '')''" by auto
  from color_literal_trailing[OF this, of t] a
  show "parse_value (s @ t)
            = Inr (PyDict [(''r'', PyFloat r), (''g'', PyFloat g),
                           (''b'', PyFloat b), (''a'', PyFloat a)])"
    by (simp add: Color_def)
next
  assume a: "vec2_match s' = Some (h1, h2) \<and> endswith s' '')''
      \<and> py_float h1 = Inr x \<and> py_float h2 = Inr y"
  then have "vec2_match s' = Some (h1, h2)" "endswith s' '')''" by auto
  from vec2_literal_trailing[OF this, of t'] a
  show "parse_value (s' @ t') = Inr (PyDict [(''x'', PyFloat x), (''y'', PyFloat y)])"
    by (simp add: Vector2_def)
next
  show "parse_value ''Vector2(1, 2) extra'' = Inr (PyDict [(''x'', PyFloat 1), (''y'', PyFloat 2)])"
    by code_simp
next
  show "parse_value ''Vector2(1, 2)'' = Inr (PyDict [(''x'', PyFloat 1), (''y'', PyFloat 2)])"
    by code_simp
next
  show "parse_value ''Color(1, 0.5, 0, 1)junk''
       = Inr (PyDict [(''r'', PyFloat 1), (''g'', PyFloat (1 / 2)),
                      (''b'', PyFloat 0), (''a'', PyFloat 1)])"
    by code_simp
next
  show "parse_value ''Color(1, 0.5, 0, 1)''
       = Inr (PyDict [(''r'', PyFloat 1), (''g'', PyFloat (1 / 2)),
                      (''b'', PyFloat 0), (''a'', PyFloat 1)])"
    by code_simp
qed

theorem literal_trailing_text_ignored_witness:
  "color_match ''Color(1, 0.5, 0, 1)'' = Some (''1'', ''0.5'', ''0'', ''1'')
   \<and> endswith ''Color(1, 0.5, 0, 1)'' '')''
   \<and> py_float ''1'' = Inr 1 \<and> py_float ''0.5'' = Inr (1 / 2) \<and> py_float ''0'' = Inr 0
   \<and> parse_value (''Color(1, 0.5, 0, 1)'' @ '' # red'')
       = Inr (PyDict [(''r'', PyFloat 1), (''g'', PyFloat (1 / 2)),
                      (''b'', PyFloat 0), (''a'', PyFloat 1)])
   \<and> vec2_match ''Vector2(-3, 4.5)'' = Some (''-3'', ''4.5'')
   \<and> endswith ''Vector2(-3, 4.5)'' '')''
   \<and> py_float ''-3'' = Inr (- 3) \<and> py_float ''4.5'' = Inr (9 / 2)
   \<and> parse_value (''Vector2(-3, 4.5)'' @ ''px'')
       = Inr (PyDict [(''x'', PyFloat (- 3)), (''y'', PyFloat (9 / 2))])"
proof -
  have m: "color_match ''Color(1, 0.5, 0, 1)'' = Some (''1'', ''0.5'', ''0'', ''1'')"
    by code_simp
  have e: "endswith ''Color(1, 0.5, 0, 1)'' '')''" by code_simp
  have f: "py_float ''1'' = Inr 1" "py_float ''0.5'' = Inr (1 / 2)" "py_float ''0'' = Inr 0"
    by code_simp+
  have m': "vec2_match ''Vector2(-3, 4.5)'' = Some (''-3'', ''4.5'')" by code_simp
  have e': "endswith ''Vector2(-3, 4.5)'' '')''" by code_simp
  have f': "py_float ''-3'' = Inr (- 3)" "py_float ''4.5'' = Inr (9 / 2)" by code_simp+
  from literal_trailing_text_ignored[where s = "''Color(1, 0.5, 0, 1)''" and ?g1.0 = "''1''"
      and ?g2.0 = "''0.5''" and ?g3.0 = "''0''" and ?g4.0 = "''1''" and r = 1 and g = "1 / 2"
      and b = 0 and a = 1 and t = "'' # red''" and s' = "''Vector2(-3, 4.5)''"
      and ?h1.0 = "''-3''" and ?h2.0 = "''4.5''" and x = "- 3" and y = "9 / 2" and t' = "''px''"]
    m e f m' e' f'
  show ?thesis by simp
qed

section \<open>The resource section\<close>

lemma occurs_in_Cons:
  "occurs_in p (c # cs) \<longleftrightarrow> take (length p) (c # cs) = p \<or> occurs_in p cs"
proof
  assume "occurs_in p (c # cs)"
  then obtain pre post where e: "c # cs = pre @ p @ post" unfolding occurs_in_def by blast
  show "take (length p) (c # cs) = p \<or> occurs_in p cs"
  proof (cases pre)
    case Nil
    then show ?thesis using e by simp
  next
    case (Cons a pre')
    then have "cs = pre' @ p @ post" using e by simp
    then show ?thesis unfolding occurs_in_def by blast
  qed
next
  assume "take (length p) (c # cs) = p \<or> occurs_in p cs"
  then show "occurs_in p (c # cs)"
  proof
    assume "take (length p) (c # cs) = p"
    then have "c # cs = [] @ p @ drop (length p) (c # cs)"
      by (metis append_Nil append_take_drop_id)
    then show ?thesis unfolding occurs_in_def by blast
  next
    assume "occurs_in p cs"
    then obtain pre post where "cs = pre @ p @ post" unfolding occurs_in_def by blast
    then have "c # cs = (c # pre) @ p @ post" by simp
    then show ?thesis unfolding occurs_in_def by blast
  qed
qed

lemma find_after_None: "find_after p s = None \<longleftrightarrow> \<not> occurs_in p s"
proof (induction s)
  case Nil
  show ?case by (auto simp: occurs_in_def)
next
  case (Cons c cs)
  show ?case unfolding occurs_in_Cons using Cons by simp
qed

lemma find_after_first:
  "first_at p s pre post \<Longrightarrow> find_after p s = Some post"
proof (induction s arbitrary: pre)
  case Nil
  then show ?case by (auto simp: first_at_def)
next
  case (Cons c cs)
  have e: "c # cs = pre @ p @ post"
    and m: "\<And>pre' post'. c # cs = pre' @ p @ post' \<Longrightarrow> length pre \<le> length pre'"
    using Cons.prems unfolding first_at_def by auto
  show ?case
  proof (cases "take (length p) (c # cs) = p")
    case True
    then have "c # cs = [] @ p @ drop (length p) (c # cs)"
      by (metis append_Nil append_take_drop_id)
    then have "length pre \<le> length ([] :: string)" by (rule m)
    then have "pre = []" by simp
    then have "post = drop (length p) (c # cs)" using e by simp
    then show ?thesis using True by simp
  next
    case False
    then have "pre \<noteq> []" using e by auto
    then obtain pre' where p: "pre = c # pre'" using e by (cases pre) auto
    have "first_at p cs pre' post"
      unfolding first_at_def
    proof (intro conjI allI impI)
      show "cs = pre' @ p @ post" using e p by simp
    next
      fix a b assume "cs = a @ p @ b"
      then have "c # cs = (c # a) @ p @ b" by simp
      then have "length pre \<le> length (c # a)" by (rule m)
      then show "length pre' \<le> length a" using p by simp
    qed
    then have "find_after p cs = Some post" by (rule Cons.IH)
    then show ?thesis using False by simp
  qed
qed

lemma find_after_Some:
  "find_after p s = Some post \<Longrightarrow> \<exists>pre. first_at p s pre post"
proof (induction s)
  case Nil
  then show ?case by (auto simp: first_at_def split: if_splits)
next
  case (Cons c cs)
  show ?case
  proof (cases "take (length p) (c # cs) = p")
    case True
    then have "post = drop (length p) (c # cs)" using Cons.prems by simp
    then have "c # cs = [] @ p @ post" using True by (metis append_Nil append_take_drop_id)
    then have "first_at p (c # cs) [] post" unfolding first_at_def by simp
    then show ?thesis by blast
  next
    case False
    then have "find_after p cs = Some post" using Cons.prems by simp
    then obtain pre where f: "first_at p cs pre post" using Cons.IH by blast
    have "first_at p (c # cs) (c # pre) post"
      unfolding first_at_def
    proof (intro conjI allI impI)
      show "c # cs = (c # pre) @ p @ post" using f unfolding first_at_def by simp
    next
      fix a b assume e: "c # cs = a @ p @ b"
      have "a \<noteq> []" using e False by auto
      then obtain a' where a: "a = c # a'" using e by (cases a) auto
      then have "cs = a' @ p @ b" using e by simp
      then have "length pre \<le> length a'" using f unfolding first_at_def by blast
      then show "length (c # pre) \<le> length a" using a by simp
    qed
    then show ?thesis by blast
  qed
qed

text \<open>
  Claim C6. \<^verbatim>\<open>parse_tres_file\<close> returns \<^verbatim>\<open>None\<close>, without raising, exactly when the text of
  the file does not contain the marker \<^verbatim>\<open>[resource]\<close>; and when \<open>pre\<close> is the text before
  the first occurrence of the marker and \<open>post\<close> the text after it, the result is the
  document built from the lines of \<open>post\<close>.
\<close>

theorem section_extractor:
  "(parse_tres_file content = Inr None \<longleftrightarrow> \<not> occurs_in ''[resource]'' content)
   \<and> (first_at ''[resource]'' content pre post \<longrightarrow>
        parse_tres_file content
          = map_sum id Some (tres_lines (split_on newline (strip post)) []))
   \<and> parse_tres_file ''[gd_resource type=\"Resource\"]'' = Inr None"
proof (intro conjI impI)
  show "parse_tres_file content = Inr None \<longleftrightarrow> \<not> occurs_in ''[resource]'' content"
    unfolding find_after_None[symmetric] parse_tres_file_def
    by (cases "find_after ''[resource]'' content";
        cases "tres_lines (split_on newline (strip (the (find_after ''[resource]'' content)))) []")
      auto
next
  assume "first_at ''[resource]'' content pre post"
  then have "find_after ''[resource]'' content = Some post" by (rule find_after_first)
  then show "parse_tres_file content
      = map_sum id Some (tres_lines (split_on newline (strip post)) [])"
    unfolding parse_tres_file_def by simp
next
  show "parse_tres_file ''[gd_resource type=\"Resource\"]'' = Inr None" by code_simp
qed


theorem section_extractor_witness:
  "first_at ''[resource]'' (''[gd_resource]'' @ [newline] @ ''[resource]'' @ [newline] @ ''hp = 1'')
     (''[gd_resource]'' @ [newline]) (newline # ''hp = 1'')
   \<and> parse_tres_file (''[gd_resource]'' @ [newline] @ ''[resource]'' @ [newline] @ ''hp = 1'')
       = Inr (Some [(''hp'', PyInt 1)])"
proof -
  let ?X = "''[gd_resource]'' @ [newline] @ ''[resource]'' @ [newline] @ ''hp = 1''"
  have "find_after ''[resource]'' ?X = Some (newline # ''hp = 1'')" by code_simp
  then obtain pre0 where f: "first_at ''[resource]'' ?X pre0 (newline # ''hp = 1'')"
    using find_after_Some by blast
  then have "?X = pre0 @ ''[resource]'' @ newline # ''hp = 1''" unfolding first_at_def by blast
  moreover have "?X = (''[gd_resource]'' @ [newline]) @ ''[resource]'' @ newline # ''hp = 1''"
    by simp
  ultimately have "pre0 = ''[gd_resource]'' @ [newline]"
    by (metis append_same_eq)
  then have h: "first_at ''[resource]'' ?X (''[gd_resource]'' @ [newline]) (newline # ''hp = 1'')"
    using f by simp
  have v: "map_sum id Some (tres_lines (split_on newline (strip (newline # ''hp = 1''))) [])
      = Inr (Some [(''hp'', PyInt 1)])"
    by code_simp
  from section_extractor[of ?X "''[gd_resource]'' @ [newline]" "newline # ''hp = 1''"] h v
  show ?thesis by simp
qed

section \<open>Duplicate keys\<close>

lemma parse_value_strip: "parse_value (strip x) = parse_value x"
  unfolding parse_value.simps[of "strip x"] parse_value.simps[of x] strip_strip ..

lemma tres_lines_assignments:
  "tres_lines ls data = store_all (assignments ls) data"
proof (induction ls arbitrary: data)
  case Nil
  show ?case by (simp add: assignments_def List.map_filter_simps)
next
  case (Cons l ls)
  show ?case
  proof (cases "line_assignment l")
    case None
    then have "tres_lines (l # ls) data = tres_lines ls data"
      unfolding line_assignment_def Let_def by (auto split: if_splits option.splits)
    then show ?thesis using None Cons
      by (simp add: assignments_def List.map_filter_simps)
  next
    case (Some a)
    obtain k raw where a: "a = (k, raw)" by (cases a)
    obtain g2 where g: "assign_match (strip l) = Some (k, g2)" "raw = strip g2"
        "\<not> (strip l = [] \<or> startswith (strip l) ''#'' \<or> startswith (strip l) ''script'')"
      using Some a unfolding line_assignment_def Let_def by (auto split: if_splits)
    have "tres_lines (l # ls) data =
        (case parse_value (strip g2) of
           Inr v \<Rightarrow> tres_lines ls (AList.update k v data) | Inl e \<Rightarrow> Inl e)"
      using g by (simp add: Let_def)
    then show ?thesis using Some a g(2) Cons
      by (simp add: assignments_def List.map_filter_simps parse_value_strip split: sum.splits)
  qed
qed

lemma filter_removeAll_in:
  "k \<in> K \<Longrightarrow> filter (\<lambda>x. x \<notin> K) (removeAll k xs) = filter (\<lambda>x. x \<notin> K) xs"
  by (induction xs) auto

lemma filter_insert_removeAll:
  "filter (\<lambda>x. x \<noteq> k \<and> x \<notin> K) xs = filter (\<lambda>x. x \<notin> K) (removeAll k xs)"
  by (induction xs) auto

lemma store_all_keys:
  "store_all ps data = Inr doc \<Longrightarrow>
   map fst doc = map fst data
     @ filter (\<lambda>k. k \<notin> set (map fst data)) (first_seen (map fst ps))"
proof (induction ps arbitrary: data)
  case Nil
  then show ?case by simp
next
  case (Cons p ps)
  obtain k tx where p: "p = (k, tx)" by (cases p)
  obtain v where v: "parse_value (strip tx) = Inr v"
      and r: "store_all ps (AList.update k v data) = Inr doc"
    using Cons.prems unfolding p by (auto split: sum.splits)
  note IH = Cons.IH[OF r]
  show ?case
  proof (cases "k \<in> set (map fst data)")
    case True
    then have "map fst (AList.update k v data) = map fst data" by (simp add: update_keys)
    then show ?thesis using IH True unfolding p
      by (simp add: filter_removeAll_in[of k "fst ` set data"])
  next
    case False
    then have "map fst (AList.update k v data) = map fst data @ [k]" by (simp add: update_keys)
    then show ?thesis using IH False unfolding p
      by (simp add: filter_insert_removeAll[of k "fst ` set data"])
  qed
qed

lemma store_all_last:
  "store_all ps data = Inr doc \<Longrightarrow>
   (case map_of (rev ps) k of
      Some tx \<Rightarrow> \<exists>v. parse_value (strip tx) = Inr v \<and> map_of doc k = Some v
    | None \<Rightarrow> map_of doc k = map_of data k)"
proof (induction ps arbitrary: data)
  case Nil
  then show ?case by simp
next
  case (Cons p ps)
  obtain k0 tx where p: "p = (k0, tx)" by (cases p)
  obtain v where v: "parse_value (strip tx) = Inr v"
      and r: "store_all ps (AList.update k0 v data) = Inr doc"
    using Cons.prems unfolding p by (auto split: sum.splits)
  note IH = Cons.IH[OF r]
  show ?case
  proof (cases "map_of (rev ps) k")
    case None
    then show ?thesis using IH v unfolding p
      by (auto simp: map_add_def update_conv')
  next
    case (Some a)
    then show ?thesis using IH unfolding p by (simp add: map_add_def)
  qed
qed


lemma distinct_first_seen: "distinct (first_seen xs)"
  by (induction xs) (auto simp: distinct_removeAll)

text \<open>
  Claim C7. When \<^verbatim>\<open>parse_tres_file\<close> returns a document for a section, the keys of the
  document are the keys of the section's assignment lines in the order in which they
  first occur, each once, and every key is mapped to the value classified from the
  value text of the last assignment line with that key.
\<close>

theorem duplicate_keys_last_wins:
  "(find_after ''[resource]'' content = Some sec \<and> parse_tres_file content = Inr (Some doc)
     \<longrightarrow> map fst doc = first_seen (map fst (assignments (split_on newline (strip sec))))
       \<and> distinct (map fst doc)
       \<and> (\<forall>k raw. map_of (rev (assignments (split_on newline (strip sec)))) k = Some raw
             \<longrightarrow> (\<exists>v. parse_value raw = Inr v \<and> map_of doc k = Some v)))
   \<and> parse_tres_file (''[resource]'' @ [newline] @ ''hp = 1'' @ [newline] @ ''name = \"a\"''
         @ [newline] @ ''hp = 2'')
       = Inr (Some [(''hp'', PyInt 2), (''name'', PyStr ''a'')])"
proof (intro conjI impI allI)
  assume a: "find_after ''[resource]'' content = Some sec \<and> parse_tres_file content = Inr (Some doc)"
  then have s: "store_all (assignments (split_on newline (strip sec))) [] = Inr doc"
    unfolding parse_tres_file_def tres_lines_assignments
    by (cases "store_all (assignments (split_on newline (strip sec))) []") auto
  show k: "map fst doc = first_seen (map fst (assignments (split_on newline (strip sec))))"
    using store_all_keys[OF s] by simp
  show "distinct (map fst doc)" unfolding k by (rule distinct_first_seen)
  fix k raw
  assume "map_of (rev (assignments (split_on newline (strip sec)))) k = Some raw"
  then show "\<exists>v. parse_value raw = Inr v \<and> map_of doc k = Some v"
    using store_all_last[OF s, of k] by (simp add: parse_value_strip)
next
  show "parse_tres_file (''[resource]'' @ [newline] @ ''hp = 1'' @ [newline] @ ''name = \"a\"''
         @ [newline] @ ''hp = 2'')
       = Inr (Some [(''hp'', PyInt 2), (''name'', PyStr ''a'')])"
    by code_simp
qed

theorem duplicate_keys_last_wins_witness:
  "find_after ''[resource]'' (''[resource]'' @ [newline] @ ''hp = 1'' @ [newline] @ ''name = \"a\"''
       @ [newline] @ ''hp = 2'')
     = Some ([newline] @ ''hp = 1'' @ [newline] @ ''name = \"a\"'' @ [newline] @ ''hp = 2'')
   \<and> parse_tres_file (''[resource]'' @ [newline] @ ''hp = 1'' @ [newline] @ ''name = \"a\"''
       @ [newline] @ ''hp = 2'')
     = Inr (Some [(''hp'', PyInt 2), (''name'', PyStr ''a'')])
   \<and> assignments (split_on newline (strip ([newline] @ ''hp = 1'' @ [newline] @ ''name = \"a\"''
       @ [newline] @ ''hp = 2'')))
     = [(''hp'', ''1''), (''name'', ''\"a\"''), (''hp'', ''2'')]
   \<and> map_of (rev [(''hp'', ''1''), (''name'', ''\"a\"''), (''hp'', ''2'')]) ''hp'' = Some ''2''
   \<and> (\<exists>v. parse_value ''2'' = Inr v
         \<and> map_of [(''hp'', PyInt 2), (''name'', PyStr ''a'')] ''hp'' = Some v)
   \<and> map fst [(''hp'', PyInt 2), (''name'', PyStr ''a'')] = [''hp'', ''name'']"
proof -
  let ?X = "''[resource]'' @ [newline] @ ''hp = 1'' @ [newline] @ ''name = \"a\"''
       @ [newline] @ ''hp = 2''"
  let ?sec = "[newline] @ ''hp = 1'' @ [newline] @ ''name = \"a\"'' @ [newline] @ ''hp = 2''"
  let ?doc = "[(''hp'', PyInt 2), (''name'', PyStr ''a'')]"
  have f: "find_after ''[resource]'' ?X = Some ?sec" by code_simp
  have p: "parse_tres_file ?X = Inr (Some ?doc)" by code_simp
  have a: "assignments (split_on newline (strip ?sec))
      = [(''hp'', ''1''), (''name'', ''\"a\"''), (''hp'', ''2'')]"
    by code_simp
  have m: "map_of (rev [(''hp'', ''1''), (''name'', ''\"a\"''), (''hp'', ''2'')]) ''hp'' = Some ''2''"
    by simp
  from duplicate_keys_last_wins[of ?X ?sec ?doc] f p
  have "\<forall>k raw. map_of (rev (assignments (split_on newline (strip ?sec)))) k = Some raw
             \<longrightarrow> (\<exists>v. parse_value raw = Inr v \<and> map_of ?doc k = Some v)"
    by blast
  then have "\<exists>v. parse_value ''2'' = Inr v \<and> map_of ?doc ''hp'' = Some v"
    unfolding a using m by blast
  then show ?thesis using f p a m by simp
qed

section \<open>The fallback of the classifier and the paths without an inner marker\<close>

text \<open>
  A text that none of the checks recognises is returned trimmed, as a string; the empty
  text gives the empty string.
\<close>

lemma parse_value_fallback:
  assumes "strip raw \<noteq> ''true''" "strip raw \<noteq> ''false''" "strip raw \<noteq> ''null''"
    "strip raw \<noteq> ''nil''" "color_match (strip raw) = None" "vec2_match (strip raw) = None"
    "\<not> (startswith (strip raw) [dquote] \<and> endswith (strip raw) [dquote])"
    "\<not> startswith (strip raw) ''[''" "\<not> startswith (strip raw) ''{''"
    "\<not> int_match (strip raw)" "\<not> float_match (strip raw)"
  shows "parse_value raw = Inr (PyStr (strip raw))"
  unfolding parse_value.simps[of raw] Let_def using assms by auto

lemma parse_value_empty: "parse_value [] = Inr (PyStr [])"
  by code_simp

text \<open>
  Where \<^verbatim>\<open>convert_path\<close> does what its comment says: on a path in which the marker
  \<^verbatim>\<open>res://\<close> does not occur, and on a path in which it occurs as the prefix only, the
  result is the path without the prefix and with every backslash turned into a slash.
\<close>

lemma replace_scan_absent:
  "\<not> occurs_in old s \<Longrightarrow> replace_scan old new s = s"
proof (induction s)
  case Nil
  show ?case by (simp add: replace_scan.simps[of old new "[]"])
next
  case (Cons c cs)
  have 1: "take (length old) (c # cs) \<noteq> old" and 2: "\<not> occurs_in old cs"
    using Cons.prems unfolding occurs_in_Cons by auto
  show ?case
    unfolding replace_scan.simps[of old new "c # cs"] using 1 Cons.IH[OF 2] by simp
qed

lemma replace_scan_char:
  "replace_scan [b] [n] s = map (\<lambda>c. if c = b then n else c) s"
proof (induction s)
  case Nil
  show ?case by (simp add: replace_scan.simps[of "[b]" "[n]" "[]"])
next
  case (Cons c cs)
  show ?case
    unfolding replace_scan.simps[of "[b]" "[n]" "c # cs"] using Cons.IH by simp
qed

lemma convert_path_no_marker:
  assumes "\<not> occurs_in ''res://'' p"
  shows "convert_path p = map (\<lambda>c. if c = backslash then CHR ''/'' else c) p"
  unfolding convert_path_def str_replace_def Let_def
  using replace_scan_absent[OF assms] by (simp add: replace_scan_char)

lemma convert_path_prefix_only:
  assumes "\<not> occurs_in ''res://'' p"
  shows "convert_path (''res://'' @ p) = map (\<lambda>c. if c = backslash then CHR ''/'' else c) p"
proof -
  have "replace_scan ''res://'' [] (''res://'' @ p) = replace_scan ''res://'' [] p"
    by (subst replace_scan.simps) simp
  then show ?thesis
    unfolding convert_path_def str_replace_def Let_def
    using replace_scan_absent[OF assms] by (simp add: replace_scan_char)
qed

end
